theory Spec2Isabelle
  imports Main
begin

section \<open>The reactive engine of \<^verbatim>\<open>src/lib/signal.js\<close>\<close>

text \<open>
  The engine is higher order: cells and subscribers are closures, and the user hands
  functions to \<^verbatim>\<open>effect\<close> and \<^verbatim>\<open>computed\<close>. The engine's own functions
  (\<^verbatim>\<open>read\<close>, \<^verbatim>\<open>write\<close>, \<^verbatim>\<open>execute\<close>, \<^verbatim>\<open>dispose\<close>, ...) are translated one by
  one as state-passing functions. Closures of the engine are addressed by handles: a cell
  (the pair \<^verbatim>\<open>data\<close>/\<^verbatim>\<open>subscriptions\<close> captured by \<^verbatim>\<open>signal\<close>) by a
  number, a context object by a number. A \<^verbatim>\<open>Set<Context>\<close> keeps insertion order and is a
  duplicate-free list; a reference to the set of a cell is the cell's number.

  A user function is a tree of the engine calls it makes, each with the continuation that
  receives the call's result, so a body may branch on what it reads.
\<close>

type_synonym cell = nat
type_synonym ctx = nat

text \<open>Cell payloads: \<^verbatim>\<open>undefined\<close> or a number (integers only: no NaN). On these JavaScript's
  strict equality is equality.\<close>

datatype val = Undefined | Num int

text \<open>The argument of \<^verbatim>\<open>write\<close>: a literal, or an updater
  (\<^verbatim>\<open>value instanceof Function\<close>), taken to be a pure function as its type
  \<^verbatim>\<open>(pref?: T) => T\<close> says.\<close>

datatype warg = Lit val | Upd "val \<Rightarrow> val"

datatype exn = Thrown val | TypeError

datatype prog =
    Return val
  | ReturnFn prog
  | Throw val
  | Read cell "val \<Rightarrow> prog"
  | Write cell warg prog
  | WriteOf cell prog
  | NewSignal val "cell \<Rightarrow> prog"
  | NewComputed prog "cell \<Rightarrow> prog"
  | NewEffect "ctx \<Rightarrow> prog" prog
  | CallDispose ctx prog
  | Emit nat prog
  | TryCatch prog prog prog

text \<open>
  \<^item> \<open>Return v\<close>: \<^verbatim>\<open>return v\<close> (\<open>Return Undefined\<close> also stands for falling off the end);
  \<^item> \<open>ReturnFn q\<close>: return the zero-argument closure with body \<open>q\<close> (a cleanup);
  \<^item> \<open>Throw v\<close>: \<^verbatim>\<open>throw v\<close>;
  \<^item> \<open>Read c k\<close>: call the read accessor of cell \<open>c\<close>, go on with \<open>k\<close> of the value;
  \<^item> \<open>Write c a k\<close>: call the write accessor of cell \<open>c\<close> with \<open>a\<close>;
  \<^item> \<open>WriteOf c q\<close>: the arrow function \<^verbatim>\<open>() => write(fn())\<close> of \<^verbatim>\<open>computed\<close>, \<open>q\<close> being \<^verbatim>\<open>fn\<close>;
  \<^item> \<open>NewSignal v k\<close>, \<open>NewComputed q k\<close>: \<^verbatim>\<open>signal(v)\<close>, \<^verbatim>\<open>computed(q)\<close>; \<open>k\<close> gets the new cell;
  \<^item> \<open>NewEffect f k\<close>: \<^verbatim>\<open>effect(f)\<close>, where \<open>f\<close> takes the dispose handle it is called with;
  \<^item> \<open>CallDispose x k\<close>: call the \<^verbatim>\<open>dispose\<close> closure of context \<open>x\<close>;
  \<^item> \<open>Emit e k\<close>: a side effect outside the engine (\<^verbatim>\<open>calls++\<close>), recorded in the trace;
  \<^item> \<open>TryCatch p h k\<close>: \<^verbatim>\<open>try { p } catch (e) { h }\<close> for blocks \<open>p\<close> and \<open>h\<close> without
    \<^verbatim>\<open>return\<close> (what they hand back is dropped), then \<open>k\<close>.
\<close>

text \<open>What a call hands back: a payload, a closure returned by a user function, or the
  closures the exported constructors return.\<close>

datatype ret = RVal val | RFun prog | RAccessor cell | RSetter cell | RPair ret ret

datatype outcome = Normal ret | Raised exn

datatype event = Called ctx | Emitted nat

record signal_cell =
  data :: val
  sig_subscriptions :: "ctx list"

text \<open>
  The context object of \<^verbatim>\<open>effect\<close>, with the two constants its closures capture
  (\<open>fn\<close>, \<open>parentContext\<close>). \<open>disposables_id\<close> is the identity of the array held in
  \<^verbatim>\<open>context.disposables\<close>: \<^verbatim>\<open>dispose\<close> installs a fresh array, and
  \<^verbatim>\<open>context.disposables.push(fn(dispose) ?? ...)\<close> pushes to the array that was there
  before \<^verbatim>\<open>fn\<close> ran.
\<close>

record effect_context =
  fn :: "ctx \<Rightarrow> prog"
  parentContext :: "ctx option"
  dependencies :: "cell list"
  subscriptions :: "ctx list"
  disposables :: "ret list"
  disposables_id :: nat

text \<open>
  What user code asks of the engine, in the order it happens: a read accessor is called
  while a context is current (\<open>Tracked x c\<close>), a write accessor is called with a value that
  is not the current one (\<open>Changed c\<close>), a cell is made (\<open>Made c\<close>), an exception is caught
  by a \<^verbatim>\<open>catch\<close> clause (\<open>Caught\<close>).
\<close>

datatype jevent = Tracked ctx cell | Changed cell | Made cell | Caught

text \<open>The module state: the stack, the cells and contexts made so far, and two observers
  that nothing reads: the trace of user-function invocations and emitted effects, and the
  journal of what user code asked of the engine.\<close>

record state =
  stack :: "ctx list"
  signals :: "cell \<Rightarrow> signal_cell"
  contexts :: "ctx \<Rightarrow> effect_context"
  next_signal :: nat
  next_context :: nat
  trace :: "event list"
  journal :: "jevent list"

type_synonym result = "(outcome \<times> state) option"

definition set_add :: "'a \<Rightarrow> 'a list \<Rightarrow> 'a list" where
  "set_add x xs = (if x \<in> set xs then xs else xs @ [x])"

definition set_delete :: "'a \<Rightarrow> 'a list \<Rightarrow> 'a list" where
  "set_delete x xs = removeAll x xs"

definition upd_signal :: "cell \<Rightarrow> (signal_cell \<Rightarrow> signal_cell) \<Rightarrow> state \<Rightarrow> state" where
  "upd_signal c f s = s\<lparr>signals := (signals s)(c := f (signals s c))\<rparr>"

definition upd_context :: "ctx \<Rightarrow> (effect_context \<Rightarrow> effect_context) \<Rightarrow> state \<Rightarrow> state" where
  "upd_context x f s = s\<lparr>contexts := (contexts s)(x := f (contexts s x))\<rparr>"

definition undefined_ret :: ret where
  "undefined_ret = RVal Undefined"

text \<open>Sequencing: an exception, or running out of fuel, skips the rest.\<close>

definition and_then :: "result \<Rightarrow> (ret \<Rightarrow> state \<Rightarrow> result) \<Rightarrow> result" where
  "and_then m f =
     (case m of
        None \<Rightarrow> None
      | Some (Raised e, s) \<Rightarrow> Some (Raised e, s)
      | Some (Normal r, s) \<Rightarrow> f r s)"

text \<open>\<^verbatim>\<open>try { ... } catch (e) { h }\<close>\<close>

definition catch :: "result \<Rightarrow> (state \<Rightarrow> result) \<Rightarrow> result" where
  "catch m h =
     (case m of
        None \<Rightarrow> None
      | Some (Raised e, s) \<Rightarrow> h s
      | Some (Normal r, s) \<Rightarrow> Some (Normal r, s))"

text \<open>\<^verbatim>\<open>try { ... } finally { g }\<close>, for a \<open>g\<close> that cannot throw.\<close>

definition try_finally :: "result \<Rightarrow> (state \<Rightarrow> state) \<Rightarrow> result" where
  "try_finally m g = (case m of None \<Rightarrow> None | Some (out, s) \<Rightarrow> Some (out, g s))"

definition getCurrentContext :: "state \<Rightarrow> ctx option" where
  "getCurrentContext s = (if stack s = [] then None else Some (last (stack s)))"

definition startTracking :: "ctx \<Rightarrow> state \<Rightarrow> state" where
  "startTracking x s = s\<lparr>stack := stack s @ [x]\<rparr>"

definition stopTracking :: "state \<Rightarrow> state" where
  "stopTracking s = s\<lparr>stack := butlast (stack s)\<rparr>"

definition signal :: "val \<Rightarrow> state \<Rightarrow> ret \<times> state" where
  "signal v s =
     (let c = next_signal s
      in (RPair (RAccessor c) (RSetter c),
          s\<lparr>signals := (signals s)(c := \<lparr>data = v, sig_subscriptions = []\<rparr>),
            next_signal := Suc c\<rparr>))"

text \<open>\<^verbatim>\<open>const [read, write] = signal()\<close>: the cell both closures share.\<close>

fun cell_of :: "ret \<Rightarrow> cell" where
  "cell_of (RAccessor c) = c"
| "cell_of (RSetter c) = c"
| "cell_of (RPair a b) = cell_of a"
| "cell_of _ = 0"

definition read :: "cell \<Rightarrow> state \<Rightarrow> val \<times> state" where
  "read c s =
     (case getCurrentContext s of
        None \<Rightarrow> (data (signals s c), s)
      | Some x \<Rightarrow>
          (let s1 = upd_signal c (\<lambda>r. r\<lparr>sig_subscriptions := set_add x (sig_subscriptions r)\<rparr>) s;
               s2 = upd_context x (\<lambda>r. r\<lparr>dependencies := dependencies r @ [c]\<rparr>) s1
           in (data (signals s2 c), s2)))"

text \<open>\<^verbatim>\<open>context.dependencies.forEach((dep) => dep.delete(context))\<close>\<close>

definition detach :: "ctx \<Rightarrow> cell list \<Rightarrow> state \<Rightarrow> state" where
  "detach x deps s =
     fold (\<lambda>dep. upd_signal dep (\<lambda>r. r\<lparr>sig_subscriptions := set_delete x (sig_subscriptions r)\<rparr>)) deps s"

text \<open>\<^verbatim>\<open>fn(dispose) ?? (() => { })\<close>\<close>

definition nullish :: "ret \<Rightarrow> ret" where
  "nullish r = (case r of RVal Undefined \<Rightarrow> RFun (Return Undefined) | _ \<Rightarrow> r)"

definition push_disposable :: "nat \<Rightarrow> ctx \<Rightarrow> ret \<Rightarrow> state \<Rightarrow> state" where
  "push_disposable arr x d s =
     (if disposables_id (contexts s x) = arr
      then upd_context x (\<lambda>r. r\<lparr>disposables := disposables r @ [d]\<rparr>) s
      else s)"

text \<open>\<^verbatim>\<open>const context = { execute, dispose, dependencies: [], ... }; const parentContext =
  getCurrentContext()\<close>\<close>

definition new_context :: "(ctx \<Rightarrow> prog) \<Rightarrow> state \<Rightarrow> state" where
  "new_context f s =
     s\<lparr>contexts := (contexts s)(next_context s :=
          \<lparr>fn = f, parentContext = getCurrentContext s, dependencies = [],
           subscriptions = [], disposables = [], disposables_id = 0\<rparr>),
       next_context := Suc (next_context s)\<rparr>"

text \<open>\<^verbatim>\<open>if (parentContext !== undefined) parentContext.subscriptions.push(context)\<close>\<close>

definition register_child :: "ctx \<Rightarrow> state \<Rightarrow> state" where
  "register_child x s =
     (case parentContext (contexts s x) of
        None \<Rightarrow> s
      | Some p \<Rightarrow> upd_context p (\<lambda>r. r\<lparr>subscriptions := subscriptions r @ [x]\<rparr>) s)"

definition emit :: "event \<Rightarrow> state \<Rightarrow> state" where
  "emit e s = s\<lparr>trace := trace s @ [e]\<rparr>"

definition jot :: "jevent \<Rightarrow> state \<Rightarrow> state" where
  "jot e s = s\<lparr>journal := journal s @ [e]\<rparr>"

text \<open>A call of a read accessor by user code.\<close>

definition tracked_read :: "cell \<Rightarrow> state \<Rightarrow> val \<times> state" where
  "tracked_read c s =
     (case read c s of
        (v, s1) \<Rightarrow> (v, case getCurrentContext s of None \<Rightarrow> s1 | Some x \<Rightarrow> jot (Tracked x c) s1))"

text \<open>\<^verbatim>\<open>const nextValue = value instanceof Function ? value(data) : value\<close>\<close>

definition next_value :: "warg \<Rightarrow> val \<Rightarrow> val" where
  "next_value a d = (case a of Lit v \<Rightarrow> v | Upd f \<Rightarrow> f d)"

text \<open>The state in which a call of a write accessor by user code begins.\<close>

definition write_noted :: "cell \<Rightarrow> warg \<Rightarrow> state \<Rightarrow> state" where
  "write_noted c a s =
     (if next_value a (data (signals s c)) \<noteq> data (signals s c) then jot (Changed c) s else s)"

text \<open>
  The engine proper. A subscriber may write a cell it reads, so a run need not end: every
  call takes fuel, one unit per call, and \<open>None\<close> is "no result within the fuel".
  \<open>Raised\<close> is a JavaScript exception on its way to the caller.

  The functions of the source call each other in a cycle, so they are the cases of one
  evaluator over the calls: \<open>Notify\<close> is
  \<^verbatim>\<open>[...subscriptions].forEach(({ execute }) => execute())\<close>, \<open>DisposeEach\<close> is
  \<^verbatim>\<open>context.subscriptions.forEach(({ dispose }) => dispose())\<close> and \<open>CallEach\<close> is
  \<^verbatim>\<open>context.disposables.forEach((fn) => fn())\<close>. \<^verbatim>\<open>forEach\<close> visits the elements the
  array had when the loop began (later pushes are not visited, and the engine never
  overwrites an element), so each loop runs over the list as it was at its start.
\<close>

datatype call =
    Run prog
  | WriteSignal cell warg
  | Notify "ctx list"
  | Computed prog
  | Effect "ctx \<Rightarrow> prog"
  | Execute ctx
  | Dispose ctx
  | DisposeEach "ctx list"
  | CallEach "ret list"

text \<open>
  \<^verbatim>\<open>write(fn())\<close>, \<open>r\<close> being what \<^verbatim>\<open>fn()\<close> returned: \<^verbatim>\<open>write\<close> calls a function it is
  given with the current value and takes what that returns (a closure of the user's ignores
  the argument, a read accessor reads, a write accessor writes the argument and returns
  \<^verbatim>\<open>undefined\<close>). Cells hold payloads only: a closure or a pair as the value to store has
  no result here.
\<close>

definition write_of :: "(call \<Rightarrow> state \<Rightarrow> result) \<Rightarrow> cell \<Rightarrow> ret \<Rightarrow> state \<Rightarrow> result" where
  "write_of rec c r s =
     (case r of
        RVal v \<Rightarrow> rec (WriteSignal c (Lit v)) (write_noted c (Lit v) s)
      | RFun q \<Rightarrow>
          and_then (rec (Run q) s)
            (\<lambda>r2 s2. case r2 of
                        RVal v \<Rightarrow> rec (WriteSignal c (Lit v)) (write_noted c (Lit v) s2)
                      | _ \<Rightarrow> None)
      | RAccessor d \<Rightarrow>
          (case tracked_read d s of
             (v, s2) \<Rightarrow> rec (WriteSignal c (Lit v)) (write_noted c (Lit v) s2))
      | RSetter d \<Rightarrow>
          and_then (rec (WriteSignal d (Lit (data (signals s c))))
                      (write_noted d (Lit (data (signals s c))) s))
            (\<lambda>u s2. rec (WriteSignal c (Lit Undefined)) (write_noted c (Lit Undefined) s2))
      | RPair a b \<Rightarrow> None)"

definition run_body :: "(call \<Rightarrow> state \<Rightarrow> result) \<Rightarrow> prog \<Rightarrow> state \<Rightarrow> result" where
  "run_body rec p s =
     (case p of
        Return v \<Rightarrow> Some (Normal (RVal v), s)
      | ReturnFn q \<Rightarrow> Some (Normal (RFun q), s)
      | Throw v \<Rightarrow> Some (Raised (Thrown v), s)
      | Read c k \<Rightarrow> (case tracked_read c s of (v, s1) \<Rightarrow> rec (Run (k v)) s1)
      | Write c a k \<Rightarrow>
          and_then (rec (WriteSignal c a) (write_noted c a s)) (\<lambda>u. rec (Run k))
      | WriteOf c q \<Rightarrow> and_then (rec (Run q) s) (write_of rec c)
      | NewSignal v k \<Rightarrow>
          (case signal v s of (r, s1) \<Rightarrow> rec (Run (k (cell_of r))) (jot (Made (cell_of r)) s1))
      | NewComputed q k \<Rightarrow> and_then (rec (Computed q) s) (\<lambda>r. rec (Run (k (cell_of r))))
      | NewEffect f k \<Rightarrow> and_then (rec (Effect f) s) (\<lambda>u. rec (Run k))
      | CallDispose x k \<Rightarrow> and_then (rec (Dispose x) s) (\<lambda>u. rec (Run k))
      | Emit e k \<Rightarrow> rec (Run k) (emit (Emitted e) s)
      | TryCatch p h k \<Rightarrow>
          and_then (catch (rec (Run p) s) (\<lambda>s1. rec (Run h) (jot Caught s1)))
            (\<lambda>u. rec (Run k)))"

definition write_body :: "(call \<Rightarrow> state \<Rightarrow> result) \<Rightarrow> cell \<Rightarrow> warg \<Rightarrow> state \<Rightarrow> result" where
  "write_body rec c a s =
     (let nextValue = next_value a (data (signals s c))
      in if nextValue \<noteq> data (signals s c)
         then (let s1 = upd_signal c (\<lambda>r. r\<lparr>data := nextValue\<rparr>) s
               in rec (Notify (sig_subscriptions (signals s1 c))) s1)
         else Some (Normal undefined_ret, s))"

definition computed_body :: "(call \<Rightarrow> state \<Rightarrow> result) \<Rightarrow> prog \<Rightarrow> state \<Rightarrow> result" where
  "computed_body rec q s =
     (case signal Undefined s of
        (rw, s1) \<Rightarrow>
          and_then (rec (Effect (\<lambda>d. WriteOf (cell_of rw) q)) (jot (Made (cell_of rw)) s1))
            (\<lambda>u s2. Some (Normal (RAccessor (cell_of rw)), s2)))"

definition effect_body :: "(call \<Rightarrow> state \<Rightarrow> result) \<Rightarrow> (ctx \<Rightarrow> prog) \<Rightarrow> state \<Rightarrow> result" where
  "effect_body rec f s =
     and_then (rec (Execute (next_context s)) (new_context f s))
       (\<lambda>u s1. Some (Normal undefined_ret, s1))"

definition execute_body :: "(call \<Rightarrow> state \<Rightarrow> result) \<Rightarrow> ctx \<Rightarrow> state \<Rightarrow> result" where
  "execute_body rec x s =
     try_finally
       (and_then (rec (Dispose x) s)
          (\<lambda>u s1.
            let s2 = startTracking x (register_child x s1);
                arr = disposables_id (contexts s2 x)
            in and_then (rec (Run (fn (contexts s2 x) x)) (emit (Called x) s2))
                 (\<lambda>r s3. Some (Normal undefined_ret, push_disposable arr x (nullish r) s3))))
       stopTracking"

definition dispose_body :: "(call \<Rightarrow> state \<Rightarrow> result) \<Rightarrow> ctx \<Rightarrow> state \<Rightarrow> result" where
  "dispose_body rec x s =
     (let s1 = upd_context x (\<lambda>r. r\<lparr>dependencies := []\<rparr>)
                 (detach x (dependencies (contexts s x)) s)
      in and_then (rec (DisposeEach (subscriptions (contexts s1 x))) s1)
           (\<lambda>u s2.
             let s3 = upd_context x (\<lambda>r. r\<lparr>subscriptions := []\<rparr>) s2
             in and_then (rec (CallEach (disposables (contexts s3 x))) s3)
                  (\<lambda>u s4. Some (Normal undefined_ret,
                     upd_context x (\<lambda>r. r\<lparr>disposables := [],
                                          disposables_id := Suc (disposables_id r)\<rparr>) s4))))"

definition call_body :: "(call \<Rightarrow> state \<Rightarrow> result) \<Rightarrow> ret \<Rightarrow> state \<Rightarrow> result" where
  "call_body rec d s =
     (case d of
        RFun q \<Rightarrow> rec (Run q) s
      | RAccessor c \<Rightarrow> (case tracked_read c s of (v, s1) \<Rightarrow> Some (Normal (RVal v), s1))
      | RSetter c \<Rightarrow> rec (WriteSignal c (Lit Undefined)) (write_noted c (Lit Undefined) s)
      | _ \<Rightarrow> Some (Raised TypeError, s))"

primrec eval :: "nat \<Rightarrow> call \<Rightarrow> state \<Rightarrow> result" where
  "eval 0 t s = None"
| "eval (Suc n) t s =
     (case t of
        Run p \<Rightarrow> run_body (eval n) p s
      | WriteSignal c a \<Rightarrow> write_body (eval n) c a s
      | Notify xs \<Rightarrow>
          (case xs of
             [] \<Rightarrow> Some (Normal undefined_ret, s)
           | x # ys \<Rightarrow> and_then (eval n (Execute x) s) (\<lambda>u. eval n (Notify ys)))
      | Computed q \<Rightarrow> computed_body (eval n) q s
      | Effect f \<Rightarrow> effect_body (eval n) f s
      | Execute x \<Rightarrow> execute_body (eval n) x s
      | Dispose x \<Rightarrow> dispose_body (eval n) x s
      | DisposeEach xs \<Rightarrow>
          (case xs of
             [] \<Rightarrow> Some (Normal undefined_ret, s)
           | x # ys \<Rightarrow> and_then (eval n (Dispose x) s) (\<lambda>u. eval n (DisposeEach ys)))
      | CallEach ds \<Rightarrow>
          (case ds of
             [] \<Rightarrow> Some (Normal undefined_ret, s)
           | d # es \<Rightarrow> and_then (call_body (eval n) d s) (\<lambda>u. eval n (CallEach es))))"

abbreviation run :: "nat \<Rightarrow> prog \<Rightarrow> state \<Rightarrow> result" where
  "run n p \<equiv> eval n (Run p)"

abbreviation write_signal :: "nat \<Rightarrow> cell \<Rightarrow> warg \<Rightarrow> state \<Rightarrow> result" where
  "write_signal n c a \<equiv> eval n (WriteSignal c a)"

abbreviation notify :: "nat \<Rightarrow> ctx list \<Rightarrow> state \<Rightarrow> result" where
  "notify n xs \<equiv> eval n (Notify xs)"

abbreviation computed :: "nat \<Rightarrow> prog \<Rightarrow> state \<Rightarrow> result" where
  "computed n q \<equiv> eval n (Computed q)"

abbreviation effect :: "nat \<Rightarrow> (ctx \<Rightarrow> prog) \<Rightarrow> state \<Rightarrow> result" where
  "effect n f \<equiv> eval n (Effect f)"

abbreviation execute :: "nat \<Rightarrow> ctx \<Rightarrow> state \<Rightarrow> result" where
  "execute n x \<equiv> eval n (Execute x)"

abbreviation dispose :: "nat \<Rightarrow> ctx \<Rightarrow> state \<Rightarrow> result" where
  "dispose n x \<equiv> eval n (Dispose x)"

abbreviation dispose_each :: "nat \<Rightarrow> ctx list \<Rightarrow> state \<Rightarrow> result" where
  "dispose_each n xs \<equiv> eval n (DisposeEach xs)"

abbreviation call_each :: "nat \<Rightarrow> ret list \<Rightarrow> state \<Rightarrow> result" where
  "call_each n ds \<equiv> eval n (CallEach ds)"

text \<open>The module as loaded: an empty stack, no cell, no context.\<close>

definition init :: state where
  "init = \<lparr>stack = [], signals = (\<lambda>c. \<lparr>data = Undefined, sig_subscriptions = []\<rparr>),
           contexts = (\<lambda>x. \<lparr>fn = (\<lambda>d. Return Undefined), parentContext = None,
                             dependencies = [], subscriptions = [], disposables = [],
                             disposables_id = 0\<rparr>),
           next_signal = 0, next_context = 0, trace = [], journal = []\<rparr>"

text \<open>Reading a result.\<close>

definition returned :: "result \<Rightarrow> bool" where
  "returned m = (case m of Some (Normal r, s) \<Rightarrow> True | _ \<Rightarrow> False)"

definition raised :: "result \<Rightarrow> bool" where
  "raised m = (case m of Some (Raised e, s) \<Rightarrow> True | _ \<Rightarrow> False)"

definition value_of :: "result \<Rightarrow> ret" where
  "value_of m = (case m of Some (Normal r, s) \<Rightarrow> r | _ \<Rightarrow> undefined_ret)"

definition state_of :: "result \<Rightarrow> state" where
  "state_of m = (case m of Some (out, s) \<Rightarrow> s | None \<Rightarrow> init)"

text \<open>
  The fan-out as the specification words it: each context of a list run to completion, one
  after the other, in the order of the list.
\<close>

inductive runs_in_order :: "ctx list \<Rightarrow> state \<Rightarrow> state \<Rightarrow> bool" where
  rio_Nil: "runs_in_order [] s s"
| rio_Cons: "execute m x s = Some (Normal u, s1) \<Longrightarrow> runs_in_order xs s1 s'
             \<Longrightarrow> runs_in_order (x # xs) s s'"

section \<open>The reactive engine of \<^verbatim>\<open>src/lib/reactive.js\<close>\<close>

text \<open>
  The second engine of the repository keeps a stack of tracking sets (\<^verbatim>\<open>tracklist\<close>) and,
  per getter, a set of callbacks (\<^verbatim>\<open>watchlist\<close>). A getter is identified with its ref.
  A callback is the \<^verbatim>\<open>effect\<close> closure of a subscriber, the \<^verbatim>\<open>update\<close> closure of a
  derived ref (both identified by the subscriber they belong to), or a function object of
  the user's, handed to a lazy subscriber. Function objects have an identity of their own:
  the callbacks of a getter are a \<^verbatim>\<open>Set\<close>, so the same function object handed to two lazy
  subscribers is one callback. Payloads are primitives, on which \<^verbatim>\<open>structuredClone\<close> is
  the identity.
\<close>

datatype callback = EffectFn nat | UpdateFn nat | UserFn nat

datatype rprog =
    RReturn val
  | RThrow val
  | RGet cell "val \<Rightarrow> rprog"
  | RSet cell "val \<Rightarrow> val" rprog
  | RNewRef val "cell \<Rightarrow> rprog"
  | RNewComputed rprog "cell \<Rightarrow> nat \<Rightarrow> rprog"
  | RNewEffect rprog "cell list option" "nat \<Rightarrow> rprog"
  | RFunction rprog "nat \<Rightarrow> rprog"
  | RNewEffectOf nat "cell list option" "nat \<Rightarrow> rprog"
  | RCallClear nat rprog
  | REmit nat rprog

text \<open>
  \<open>RGet r k\<close> calls the getter of ref \<open>r\<close>; \<open>RSet r u k\<close> calls its setter with the updater
  \<open>u\<close>; \<open>RNewRef\<close>, \<open>RNewComputed\<close> and \<open>RNewEffect\<close> call the three constructors (the
  continuation gets the new ref and the subscriber whose \<^verbatim>\<open>clear\<close> was returned);
  \<open>RNewEffect f rs k\<close> is \<^verbatim>\<open>effect(() => { f }, rs)\<close>, the function expression making a
  function object of its own; \<open>RFunction f k\<close> is \<^verbatim>\<open>const fn = () => { f }\<close>, the
  continuation getting the new function object, and \<open>RNewEffectOf g rs k\<close> is
  \<^verbatim>\<open>effect(g, rs)\<close> for such an object;
  \<open>RCallClear w k\<close> calls the \<^verbatim>\<open>clear\<close> closure of subscriber \<open>w\<close>.
\<close>

datatype rret = RRVal val | RRGetter cell | RRSetter cell | RRClear nat | RRPair rret rret

datatype routcome = RNormal rret | RRaised exn

datatype revent = RCalled callback | REmitted nat

record ref_cell =
  ref_data :: val
  callbacks :: "callback list"

text \<open>The closure variables of one call of \<^verbatim>\<open>effect\<close> or \<^verbatim>\<open>computed\<close>: the user's
  function, the set \<^verbatim>\<open>deps\<close> of unsubscribe closures (each deletes one callback from the
  callback set of one getter), and for \<^verbatim>\<open>computed\<close> its own ref.\<close>

record watcher =
  w_fn :: rprog
  w_deps :: "(cell \<times> callback) list"
  w_ref :: cell

record rstate =
  tracklist :: "cell list list"
  refs :: "cell \<Rightarrow> ref_cell"
  watchers :: "nat \<Rightarrow> watcher"
  fn_objects :: "nat \<Rightarrow> rprog"
  next_ref :: nat
  next_watcher :: nat
  next_function :: nat
  rtrace :: "revent list"

type_synonym rresult = "(routcome \<times> rstate) option"

definition rundefined :: rret where
  "rundefined = RRVal Undefined"

definition rand_then :: "rresult \<Rightarrow> (rret \<Rightarrow> rstate \<Rightarrow> rresult) \<Rightarrow> rresult" where
  "rand_then m f =
     (case m of
        None \<Rightarrow> None
      | Some (RRaised e, s) \<Rightarrow> Some (RRaised e, s)
      | Some (RNormal r, s) \<Rightarrow> f r s)"

definition upd_ref :: "cell \<Rightarrow> (ref_cell \<Rightarrow> ref_cell) \<Rightarrow> rstate \<Rightarrow> rstate" where
  "upd_ref r f s = s\<lparr>refs := (refs s)(r := f (refs s r))\<rparr>"

definition upd_watcher :: "nat \<Rightarrow> (watcher \<Rightarrow> watcher) \<Rightarrow> rstate \<Rightarrow> rstate" where
  "upd_watcher w f s = s\<lparr>watchers := (watchers s)(w := f (watchers s w))\<rparr>"

text \<open>\<^verbatim>\<open>tracklist[tracklist.length - 1]?.add(target)\<close>\<close>

definition track :: "cell \<Rightarrow> rstate \<Rightarrow> rstate" where
  "track target s =
     (if tracklist s = [] then s
      else s\<lparr>tracklist := butlast (tracklist s) @ [set_add target (last (tracklist s))]\<rparr>)"

definition startTracking_r :: "rstate \<Rightarrow> rstate" where
  "startTracking_r s = s\<lparr>tracklist := tracklist s @ [[]]\<rparr>"

text \<open>\<^verbatim>\<open>return tracklist.pop() || new Set()\<close>\<close>

definition stopTracking_r :: "rstate \<Rightarrow> cell list \<times> rstate" where
  "stopTracking_r s =
     (if tracklist s = [] then ([], s)
      else (last (tracklist s), s\<lparr>tracklist := butlast (tracklist s)\<rparr>))"

text \<open>\<^verbatim>\<open>deps.add(watch(dep, fn))\<close>: the callback joins the set of the getter, and the
  closure that deletes it again joins \<^verbatim>\<open>deps\<close> (a new closure each time, so \<^verbatim>\<open>deps\<close>
  never merges two).\<close>

definition watch :: "nat \<Rightarrow> callback \<Rightarrow> cell \<Rightarrow> rstate \<Rightarrow> rstate" where
  "watch w cb target s =
     upd_watcher w (\<lambda>d. d\<lparr>w_deps := w_deps d @ [(target, cb)]\<rparr>)
       (upd_ref target (\<lambda>r. r\<lparr>callbacks := set_add cb (callbacks r)\<rparr>) s)"

text \<open>\<^verbatim>\<open>deps.forEach(fn => fn()); deps.clear()\<close>\<close>

definition clear :: "nat \<Rightarrow> rstate \<Rightarrow> rstate" where
  "clear w s =
     upd_watcher w (\<lambda>d. d\<lparr>w_deps := []\<rparr>)
       (fold (\<lambda>(target, cb). upd_ref target (\<lambda>r. r\<lparr>callbacks := set_delete cb (callbacks r)\<rparr>))
          (w_deps (watchers s w)) s)"

definition ref :: "val \<Rightarrow> rstate \<Rightarrow> rret \<times> rstate" where
  "ref v s =
     (let r = next_ref s
      in (RRPair (RRGetter r) (RRSetter r),
          s\<lparr>refs := (refs s)(r := \<lparr>ref_data = v, callbacks = []\<rparr>), next_ref := Suc r\<rparr>))"

fun ref_of :: "rret \<Rightarrow> cell" where
  "ref_of (RRGetter r) = r"
| "ref_of (RRSetter r) = r"
| "ref_of (RRPair a b) = ref_of a"
| "ref_of _ = 0"

fun clear_of :: "rret \<Rightarrow> nat" where
  "clear_of (RRClear w) = w"
| "clear_of (RRPair a b) = clear_of b"
| "clear_of _ = 0"

definition getter :: "cell \<Rightarrow> rstate \<Rightarrow> val \<times> rstate" where
  "getter r s = (ref_data (refs s r), track r s)"

definition new_watcher :: "rprog \<Rightarrow> cell \<Rightarrow> rstate \<Rightarrow> rstate" where
  "new_watcher f r s =
     s\<lparr>watchers := (watchers s)(next_watcher s := \<lparr>w_fn = f, w_deps = [], w_ref = r\<rparr>),
       next_watcher := Suc (next_watcher s)\<rparr>"

text \<open>A function expression is evaluated: a new function object.\<close>

definition new_function :: "rprog \<Rightarrow> rstate \<Rightarrow> rstate" where
  "new_function f s =
     s\<lparr>fn_objects := (fn_objects s)(next_function s := f), next_function := Suc (next_function s)\<rparr>"

text \<open>\<^verbatim>\<open>refs.forEach((dep) => { deps.add(watch(dep, fn)); })\<close>: the callback is the function
  object \<^verbatim>\<open>fn\<close> that the caller handed in.\<close>

definition lazy :: "nat \<Rightarrow> nat \<Rightarrow> cell list \<Rightarrow> rstate \<Rightarrow> rstate" where
  "lazy w g rs s = fold (watch w (UserFn g)) rs s"

definition remit :: "revent \<Rightarrow> rstate \<Rightarrow> rstate" where
  "remit e s = s\<lparr>rtrace := rtrace s @ [e]\<rparr>"

datatype rcall =
    RRun rprog
  | RSetCall cell "val \<Rightarrow> val"
  | RDispatch "callback list" val
  | RCallback callback val
  | RComputed rprog
  | REffect rprog "cell list option"
  | REffectOf nat "cell list option"
  | RUpdate nat
  | RRunEffect nat

text \<open>\<^verbatim>\<open>setter(fn)\<close>: no comparison with the old value; \<^verbatim>\<open>dispatch\<close> always follows.\<close>

definition setter_body :: "(rcall \<Rightarrow> rstate \<Rightarrow> rresult) \<Rightarrow> cell \<Rightarrow> (val \<Rightarrow> val) \<Rightarrow> rstate \<Rightarrow> rresult" where
  "setter_body rec r u s =
     (let s1 = upd_ref r (\<lambda>c. c\<lparr>ref_data := u (ref_data c)\<rparr>) s
      in rec (RDispatch (callbacks (refs s1 r)) (ref_data (refs s1 r))) s1)"

definition rrun_body :: "(rcall \<Rightarrow> rstate \<Rightarrow> rresult) \<Rightarrow> rprog \<Rightarrow> rstate \<Rightarrow> rresult" where
  "rrun_body rec p s =
     (case p of
        RReturn v \<Rightarrow> Some (RNormal (RRVal v), s)
      | RThrow v \<Rightarrow> Some (RRaised (Thrown v), s)
      | RGet r k \<Rightarrow> (case getter r s of (v, s1) \<Rightarrow> rec (RRun (k v)) s1)
      | RSet r u k \<Rightarrow> rand_then (rec (RSetCall r u) s) (\<lambda>x. rec (RRun k))
      | RNewRef v k \<Rightarrow> (case ref v s of (gs, s1) \<Rightarrow> rec (RRun (k (ref_of gs))) s1)
      | RNewComputed f k \<Rightarrow>
          rand_then (rec (RComputed f) s) (\<lambda>gc. rec (RRun (k (ref_of gc) (clear_of gc))))
      | RNewEffect f rs k \<Rightarrow>
          rand_then (rec (REffect f rs) s) (\<lambda>c. rec (RRun (k (clear_of c))))
      | RFunction f k \<Rightarrow> rec (RRun (k (next_function s))) (new_function f s)
      | RNewEffectOf g rs k \<Rightarrow>
          rand_then (rec (REffectOf g rs) s) (\<lambda>c. rec (RRun (k (clear_of c))))
      | RCallClear w k \<Rightarrow> rec (RRun k) (clear w s)
      | REmit e k \<Rightarrow> rec (RRun k) (remit (REmitted e) s))"

text \<open>\<^verbatim>\<open>stopTracking().forEach((dep) => { deps.add(watch(dep, cb)); })\<close>\<close>

definition rewatch :: "nat \<Rightarrow> callback \<Rightarrow> rstate \<Rightarrow> rstate" where
  "rewatch w cb s = (case stopTracking_r s of (tracked, s1) \<Rightarrow> fold (watch w cb) tracked s1)"

text \<open>The \<^verbatim>\<open>update\<close> closure of \<^verbatim>\<open>computed\<close>; \<^verbatim>\<open>setter(() => fn())\<close> runs the derivation,
  stores its value and dispatches, all before \<^verbatim>\<open>stopTracking\<close>.\<close>

definition update_body :: "(rcall \<Rightarrow> rstate \<Rightarrow> rresult) \<Rightarrow> nat \<Rightarrow> rstate \<Rightarrow> rresult" where
  "update_body rec w s =
     (let s1 = startTracking_r (clear w s)
      in rand_then (rec (RRun (w_fn (watchers s1 w))) (remit (RCalled (UpdateFn w)) s1))
           (\<lambda>v s2.
              let r = w_ref (watchers s2 w);
                  s3 = upd_ref r (\<lambda>c. c\<lparr>ref_data := (case v of RRVal x \<Rightarrow> x | _ \<Rightarrow> Undefined)\<rparr>) s2
              in rand_then (rec (RDispatch (callbacks (refs s3 r)) (ref_data (refs s3 r))) s3)
                   (\<lambda>x s4. Some (RNormal rundefined, rewatch w (UpdateFn w) s4))))"

text \<open>The inner \<^verbatim>\<open>effect\<close> closure of \<^verbatim>\<open>effect\<close>.\<close>

definition run_effect_body :: "(rcall \<Rightarrow> rstate \<Rightarrow> rresult) \<Rightarrow> nat \<Rightarrow> rstate \<Rightarrow> rresult" where
  "run_effect_body rec w s =
     (let s1 = startTracking_r (clear w s)
      in rand_then (rec (RRun (w_fn (watchers s1 w))) (remit (RCalled (EffectFn w)) s1))
           (\<lambda>v s2. Some (RNormal rundefined, rewatch w (EffectFn w) s2)))"

definition computed_r_body :: "(rcall \<Rightarrow> rstate \<Rightarrow> rresult) \<Rightarrow> rprog \<Rightarrow> rstate \<Rightarrow> rresult" where
  "computed_r_body rec f s =
     (case ref Undefined s of
        (gs, s1) \<Rightarrow>
          rand_then (rec (RUpdate (next_watcher s1)) (new_watcher f (ref_of gs) s1))
            (\<lambda>x s2. Some (RNormal (RRPair (RRGetter (ref_of gs)) (RRClear (next_watcher s1))), s2)))"

text \<open>\<^verbatim>\<open>if (refs !== undefined && refs.length > 0) { lazy(); } else { effect(); } return clear;\<close>\<close>

definition effect_of_body :: "(rcall \<Rightarrow> rstate \<Rightarrow> rresult) \<Rightarrow> nat \<Rightarrow> cell list option \<Rightarrow> rstate \<Rightarrow> rresult" where
  "effect_of_body rec g rs s =
     (let w = next_watcher s; s1 = new_watcher (fn_objects s g) 0 s
      in if rs \<noteq> None \<and> the rs \<noteq> []
         then Some (RNormal (RRClear w), lazy w g (the rs) s1)
         else rand_then (rec (RRunEffect w) s1) (\<lambda>x s2. Some (RNormal (RRClear w), s2)))"

text \<open>\<^verbatim>\<open>effect(() => { f }, rs)\<close>: the function expression is evaluated, then the call is
  made with the new function object.\<close>

definition effect_r_body :: "(rcall \<Rightarrow> rstate \<Rightarrow> rresult) \<Rightarrow> rprog \<Rightarrow> cell list option \<Rightarrow> rstate \<Rightarrow> rresult" where
  "effect_r_body rec f rs s = effect_of_body rec (next_function s) rs (new_function f s)"

text \<open>\<^verbatim>\<open>fn(value)\<close> for a callback \<^verbatim>\<open>fn\<close> of a callback set: a function object of the
  user's is called as it is, with no tracking set pushed.\<close>

definition callback_body :: "(rcall \<Rightarrow> rstate \<Rightarrow> rresult) \<Rightarrow> callback \<Rightarrow> val \<Rightarrow> rstate \<Rightarrow> rresult" where
  "callback_body rec cb v s =
     (case cb of
        EffectFn w \<Rightarrow> rec (RRunEffect w) s
      | UpdateFn w \<Rightarrow> rec (RUpdate w) s
      | UserFn g \<Rightarrow> rec (RRun (fn_objects s g)) (remit (RCalled (UserFn g)) s))"

primrec reval :: "nat \<Rightarrow> rcall \<Rightarrow> rstate \<Rightarrow> rresult" where
  "reval 0 t s = None"
| "reval (Suc n) t s =
     (case t of
        RRun p \<Rightarrow> rrun_body (reval n) p s
      | RSetCall r u \<Rightarrow> setter_body (reval n) r u s
      | RDispatch cbs v \<Rightarrow>
          (case cbs of
             [] \<Rightarrow> Some (RNormal rundefined, s)
           | cb # rest \<Rightarrow> rand_then (reval n (RCallback cb v) s) (\<lambda>x. reval n (RDispatch rest v)))
      | RCallback cb v \<Rightarrow> callback_body (reval n) cb v s
      | RComputed f \<Rightarrow> computed_r_body (reval n) f s
      | REffect f rs \<Rightarrow> effect_r_body (reval n) f rs s
      | REffectOf g rs \<Rightarrow> effect_of_body (reval n) g rs s
      | RUpdate w \<Rightarrow> update_body (reval n) w s
      | RRunEffect w \<Rightarrow> run_effect_body (reval n) w s)"

abbreviation rrun :: "nat \<Rightarrow> rprog \<Rightarrow> rstate \<Rightarrow> rresult" where
  "rrun n p \<equiv> reval n (RRun p)"

abbreviation setter :: "nat \<Rightarrow> cell \<Rightarrow> (val \<Rightarrow> val) \<Rightarrow> rstate \<Rightarrow> rresult" where
  "setter n r u \<equiv> reval n (RSetCall r u)"

abbreviation dispatch :: "nat \<Rightarrow> callback list \<Rightarrow> val \<Rightarrow> rstate \<Rightarrow> rresult" where
  "dispatch n cbs v \<equiv> reval n (RDispatch cbs v)"

abbreviation computed_r :: "nat \<Rightarrow> rprog \<Rightarrow> rstate \<Rightarrow> rresult" where
  "computed_r n f \<equiv> reval n (RComputed f)"

abbreviation effect_r :: "nat \<Rightarrow> rprog \<Rightarrow> cell list option \<Rightarrow> rstate \<Rightarrow> rresult" where
  "effect_r n f rs \<equiv> reval n (REffect f rs)"

abbreviation effect_of :: "nat \<Rightarrow> nat \<Rightarrow> cell list option \<Rightarrow> rstate \<Rightarrow> rresult" where
  "effect_of n g rs \<equiv> reval n (REffectOf g rs)"

abbreviation update :: "nat \<Rightarrow> nat \<Rightarrow> rstate \<Rightarrow> rresult" where
  "update n w \<equiv> reval n (RUpdate w)"

definition rinit :: rstate where
  "rinit = \<lparr>tracklist = [], refs = (\<lambda>r. \<lparr>ref_data = Undefined, callbacks = []\<rparr>),
            watchers = (\<lambda>w. \<lparr>w_fn = RReturn Undefined, w_deps = [], w_ref = 0\<rparr>),
            fn_objects = (\<lambda>g. RReturn Undefined),
            next_ref = 0, next_watcher = 0, next_function = 0, rtrace = []\<rparr>"

section \<open>Scenarios\<close>

text \<open>\<^verbatim>\<open>cell = signal(0); effect(() => { calls++; cell.read(); }); cell.write(5)\<close>\<close>

definition counter_scenario :: state where
  "counter_scenario =
     state_of (run 12 (NewSignal (Num 0) (\<lambda>c.
       NewEffect (\<lambda>d. Emit 0 (Read c (\<lambda>v. Return Undefined)))
         (Write c (Lit (Num 5)) (Return Undefined)))) init)"

text \<open>One cell read by two subscribers, made in this order.\<close>

definition two_subscribers :: state where
  "two_subscribers =
     state_of (run 12 (NewSignal (Num 0) (\<lambda>c.
       NewEffect (\<lambda>d. Emit 1 (Read c (\<lambda>v. Return Undefined)))
         (NewEffect (\<lambda>d. Emit 2 (Read c (\<lambda>v. Return Undefined)))
            (Return Undefined)))) init)"

definition rstate_of :: "rresult \<Rightarrow> rstate" where
  "rstate_of m = (case m of Some (out, s) \<Rightarrow> s | None \<Rightarrow> rinit)"

definition rreturned :: "rresult \<Rightarrow> bool" where
  "rreturned m = (case m of Some (RNormal r, s) \<Rightarrow> True | _ \<Rightarrow> False)"

text \<open>\<^verbatim>\<open>const [get, set] = ref(0); effect(() => { get(); seen++; }); set((v) => v)\<close>\<close>

definition same_value_update :: rstate where
  "same_value_update =
     rstate_of (rrun 12 (RNewRef (Num 0) (\<lambda>r.
       RNewEffect (RGet r (\<lambda>v. REmit 1 (RReturn Undefined))) None (\<lambda>e.
         REmit 100 (RSet r (\<lambda>v. v) (RReturn Undefined))))) rinit)"

section \<open>Results with more fuel\<close>

text \<open>A result is below another if it is missing or the same; an evaluator extends another
  if each of its results is above the other's.\<close>

definition le_res :: "result \<Rightarrow> result \<Rightarrow> bool" where
  "le_res m m' \<longleftrightarrow> m = None \<or> m = m'"

definition extends :: "(call \<Rightarrow> state \<Rightarrow> result) \<Rightarrow> (call \<Rightarrow> state \<Rightarrow> result) \<Rightarrow> bool" where
  "extends rec rec' \<longleftrightarrow> (\<forall>t s. le_res (rec t s) (rec' t s))"

section \<open>Invariants\<close>

text \<open>What holds of the final state whenever there is one.\<close>

definition post :: "result \<Rightarrow> (state \<Rightarrow> bool) \<Rightarrow> bool" where
  "post m P \<longleftrightarrow> (\<forall>out s'. m = Some (out, s') \<longrightarrow> P s')"

text \<open>A context that is allocated, is not running, is in no subscriber set and has no
  dependency recorded; it stays so as long as it is not run, and only a subscriber set makes
  the engine run an existing context.\<close>

definition idle :: "ctx \<Rightarrow> (ctx \<Rightarrow> prog) \<Rightarrow> state \<Rightarrow> bool" where
  "idle x f s \<longleftrightarrow>
     x < next_context s \<and> x \<notin> set (stack s) \<and>
     (\<forall>c. x \<notin> set (sig_subscriptions (signals s c))) \<and>
     dependencies (contexts s x) = [] \<and> fn (contexts s x) = f"

definition spares :: "ctx \<Rightarrow> call \<Rightarrow> bool" where
  "spares x t = (case t of Execute y \<Rightarrow> y \<noteq> x | Notify xs \<Rightarrow> x \<notin> set xs | _ \<Rightarrow> True)"

text \<open>Every membership in a subscriber set is recorded in the dependencies of the member, and
  only contexts that exist subscribe or run. This holds of the module as loaded and is kept
  by every call.\<close>

definition wf :: "state \<Rightarrow> bool" where
  "wf s \<longleftrightarrow>
     (\<forall>c x. x \<in> set (sig_subscriptions (signals s c)) \<longrightarrow>
            c \<in> set (dependencies (contexts s x)) \<and> x < next_context s) \<and>
     (\<forall>x \<in> set (stack s). x < next_context s)"

definition wf_from :: "nat \<Rightarrow> state \<Rightarrow> bool" where
  "wf_from b s \<longleftrightarrow> wf s \<and> b \<le> next_context s"

definition exists_below :: "nat \<Rightarrow> call \<Rightarrow> bool" where
  "exists_below b t =
     (case t of Execute y \<Rightarrow> y < b | Notify ys \<Rightarrow> (\<forall>y \<in> set ys. y < b) | _ \<Rightarrow> True)"

section \<open>Bodies that only read\<close>





text \<open>The contexts whose functions were invoked, in the order of the invocations.\<close>

fun calls :: "event list \<Rightarrow> ctx list" where
  "calls [] = []"
| "calls (Called x # es) = x # calls es"
| "calls (Emitted e # es) = calls es"




section \<open>Teardown, as the specification words it\<close>

text \<open>
  A context is torn down in three steps: it leaves every subscriber set recorded in its
  dependencies and the list is emptied; every child is torn down, in order, and the list of
  children is emptied; every cleanup is called, in order, and the list of cleanups is
  emptied (by a new array). Each step works on the list as it is when the step begins.
\<close>

definition clear_dependencies :: "ctx \<Rightarrow> state \<Rightarrow> state" where
  "clear_dependencies x s =
     upd_context x (\<lambda>r. r\<lparr>dependencies := []\<rparr>) (detach x (dependencies (contexts s x)) s)"

definition clear_children :: "ctx \<Rightarrow> state \<Rightarrow> state" where
  "clear_children x s = upd_context x (\<lambda>r. r\<lparr>subscriptions := []\<rparr>) s"

definition clear_cleanups :: "ctx \<Rightarrow> state \<Rightarrow> state" where
  "clear_cleanups x s =
     upd_context x (\<lambda>r. r\<lparr>disposables := [], disposables_id := Suc (disposables_id r)\<rparr>) s"

inductive teardown :: "ctx \<Rightarrow> state \<Rightarrow> state \<Rightarrow> bool"
  and teardown_each :: "ctx list \<Rightarrow> state \<Rightarrow> state \<Rightarrow> bool"
  and cleanup_each :: "ret list \<Rightarrow> state \<Rightarrow> state \<Rightarrow> bool"
where
  td: "teardown_each (subscriptions (contexts (clear_dependencies x s) x)) (clear_dependencies x s) s1
       \<Longrightarrow> cleanup_each (disposables (contexts (clear_children x s1) x)) (clear_children x s1) s2
       \<Longrightarrow> teardown x s (clear_cleanups x s2)"
| te_Nil: "teardown_each [] s s"
| te_Cons: "teardown y s s1 \<Longrightarrow> teardown_each ys s1 s' \<Longrightarrow> teardown_each (y # ys) s s'"
| ce_Nil: "cleanup_each [] s s"
| ce_Cons: "call_body (eval m) d s = Some (Normal r, s1) \<Longrightarrow> cleanup_each ds s1 s'
            \<Longrightarrow> cleanup_each (d # ds) s s'"

text \<open>A context with nothing to tear down.\<close>

definition disposed :: "ctx \<Rightarrow> state \<Rightarrow> bool" where
  "disposed x s \<longleftrightarrow>
     dependencies (contexts s x) = [] \<and> subscriptions (contexts s x) = [] \<and>
     disposables (contexts s x) = []"

text \<open>The test "nested effects auto dispose": an outer subscriber that reads a cell and makes
  an inner subscriber, which returns a cleanup.\<close>

definition nested_scenario :: state where
  "nested_scenario =
     state_of (run 12 (NewSignal (Num 0) (\<lambda>c.
       NewEffect (\<lambda>d. Emit 0 (Read c (\<lambda>v.
          NewEffect (\<lambda>d2. Emit 1 (ReturnFn (Emit 7 (Return Undefined)))) (Return Undefined))))
         (Return Undefined))) init)"




definition rvalue_of :: "rresult \<Rightarrow> rret" where
  "rvalue_of m = (case m of Some (RNormal r, s) \<Rightarrow> r | _ \<Rightarrow> rundefined)"

text \<open>
  A subscriber (context \<open>0\<close>) is running, and its body makes a second subscriber:
  \<^verbatim>\<open>effect(() => { effect(() => { c(); return () => { throw 1; }; }); setC(1); })\<close>
  over a cell \<open>c = 0\<close>.
\<close>

definition outer_running :: state where
  "outer_running = startTracking 0 (snd (signal (Num 0) (new_context (\<lambda>d. Return Undefined) init)))"

definition middle_body :: "ctx \<Rightarrow> prog" where
  "middle_body d =
     NewEffect (\<lambda>d2. Read 0 (\<lambda>v. ReturnFn (Throw (Num 1))))
       (Write 0 (Lit (Num 1)) (Return Undefined))"

text \<open>
  The same subscribers made from the empty module state, the outer one catching what the
  construction of the middle one throws and then reading a second cell \<open>b\<close>:

  \<^verbatim>\<open>const [c, setC] = signal(0); const [b, setB] = signal(0);\<close>
  \<^verbatim>\<open>effect(() => { runs++;\<close>
  \<^verbatim>\<open>  try { effect(() => { effect(() => { c(); return () => { throw 1; }; }); setC(1); }); }\<close>
  \<^verbatim>\<open>  catch (e) { }\<close>
  \<^verbatim>\<open>  b(); });\<close>

  In \<open>caught_control\<close> the middle subscriber is \<^verbatim>\<open>effect(() => { throw 1; })\<close> instead.
\<close>

definition caught_scenario :: prog where
  "caught_scenario =
     NewSignal (Num 0) (\<lambda>c. NewSignal (Num 0) (\<lambda>b.
       NewEffect (\<lambda>d.
          Emit 0 (TryCatch
            (NewEffect (\<lambda>d1.
               NewEffect (\<lambda>d2. Read c (\<lambda>v. ReturnFn (Throw (Num 1))))
                 (Write c (Lit (Num 1)) (Return Undefined)))
               (Return Undefined))
            (Return Undefined)
            (Read b (\<lambda>v. Return Undefined))))
         (Return Undefined)))"

definition caught_control :: prog where
  "caught_control =
     NewSignal (Num 0) (\<lambda>c. NewSignal (Num 0) (\<lambda>b.
       NewEffect (\<lambda>d.
          Emit 0 (TryCatch
            (NewEffect (\<lambda>d1. Throw (Num 1)) (Return Undefined))
            (Return Undefined)
            (Read b (\<lambda>v. Return Undefined))))
         (Return Undefined)))"

section \<open>Dispatch, as the specification words it\<close>

text \<open>Each callback of a list called with the value and run to completion, one after the
  other, in the order of the list.\<close>

inductive calls_in_order :: "callback list \<Rightarrow> val \<Rightarrow> rstate \<Rightarrow> rstate \<Rightarrow> bool" where
  cio_Nil: "calls_in_order [] v s s"
| cio_Cons: "reval m (RCallback cb v) s = Some (RNormal u, s1) \<Longrightarrow> calls_in_order cbs v s1 s'
             \<Longrightarrow> calls_in_order (cb # cbs) v s s'"

definition rpost :: "rresult \<Rightarrow> (rstate \<Rightarrow> bool) \<Rightarrow> bool" where
  "rpost m P \<longleftrightarrow> (\<forall>out s'. m = Some (out, s') \<longrightarrow> P s')"

text \<open>No callback set holds a callback twice (they are \<^verbatim>\<open>Set\<close>s).\<close>

definition rwf :: "rstate \<Rightarrow> bool" where
  "rwf s \<longleftrightarrow> (\<forall>r. distinct (callbacks (refs s r)))"

text \<open>
  Subscriber \<open>w\<close> is a lazy one for the function object \<open>g\<close>, whose body is \<open>f\<close>: both
  exist, no callback set holds one of the closures of \<open>w\<close> (it has never made a tracking
  run), and every unsubscribe closure that \<open>w\<close> holds is for \<open>g\<close> at a ref of \<open>A\<close>.
\<close>

definition lazy_only :: "nat \<Rightarrow> nat \<Rightarrow> rprog \<Rightarrow> cell set \<Rightarrow> rstate \<Rightarrow> bool" where
  "lazy_only w g f A s \<longleftrightarrow>
     w < next_watcher s \<and> g < next_function s \<and> fn_objects s g = f \<and>
     (\<forall>r. EffectFn w \<notin> set (callbacks (refs s r)) \<and> UpdateFn w \<notin> set (callbacks (refs s r))) \<and>
     set (w_deps (watchers s w)) \<subseteq> A \<times> {UserFn g}"

text \<open>A call that is not itself a run of subscriber \<open>w\<close>.\<close>

definition rspares :: "nat \<Rightarrow> rcall \<Rightarrow> bool" where
  "rspares w c =
     (case c of
        RRunEffect y \<Rightarrow> y \<noteq> w
      | RUpdate y \<Rightarrow> y \<noteq> w
      | RCallback cb v \<Rightarrow> cb \<noteq> EffectFn w \<and> cb \<noteq> UpdateFn w
      | RDispatch cbs v \<Rightarrow> EffectFn w \<notin> set cbs \<and> UpdateFn w \<notin> set cbs
      | _ \<Rightarrow> True)"

text \<open>
  \<^verbatim>\<open>const [x, setX] = ref(0); const [y, setY] = ref(0); const fn = () => { seen++; y(); }\<close>
\<close>

definition lazy_scenario :: rstate where
  "lazy_scenario =
     rstate_of (rrun 12 (RNewRef (Num 0) (\<lambda>x. RNewRef (Num 0) (\<lambda>y.
        RFunction (REmit 1 (RGet y (\<lambda>v. RReturn Undefined))) (\<lambda>g. RReturn Undefined)))) rinit)"

text \<open>
  A lazy subscriber on a derived ref \<open>k\<close>, whose function reads a ref \<open>b\<close> that is not
  listed:

  \<^verbatim>\<open>const [a, setA] = ref(0); const [b, setB] = ref(0);\<close>
  \<^verbatim>\<open>const [k] = computed(() => a());\<close>
  \<^verbatim>\<open>effect(() => { seen++; b(); }, [k]);\<close>
  \<^verbatim>\<open>setB(() => 1); setA(() => 1); setB(() => 2);\<close>

  (the marks \<open>100\<close>, \<open>200\<close> and \<open>300\<close> are emitted before the three setter calls).
\<close>

definition derived_scenario :: rprog where
  "derived_scenario =
     RNewRef (Num 0) (\<lambda>a. RNewRef (Num 0) (\<lambda>b.
       RNewComputed (RGet a (\<lambda>v. RReturn v)) (\<lambda>k c.
         RNewEffect (REmit 1 (RGet b (\<lambda>v. RReturn Undefined))) (Some [k]) (\<lambda>e.
           REmit 100 (RSet b (\<lambda>v. Num 1) (REmit 200 (RSet a (\<lambda>v. Num 1)
             (REmit 300 (RSet b (\<lambda>v. Num 2) (RReturn Undefined))))))))))"

section \<open>States that differ in stored functions only\<close>

text \<open>
  Two states agree but for the functions stored with the contexts, and each stored function
  gives the same body as its counterpart when applied to the dispose handle of its own
  context. Two results agree if both are missing, or both are there with the same outcome
  and states that agree in this way.
\<close>

definition same_but_fn :: "state \<Rightarrow> state \<Rightarrow> bool" where
  "same_but_fn s t \<longleftrightarrow>
     stack s = stack t \<and> signals s = signals t \<and> next_signal s = next_signal t \<and>
     next_context s = next_context t \<and> trace s = trace t \<and> journal s = journal t \<and>
     (\<forall>y. fn (contexts s y) y = fn (contexts t y) y \<and>
          parentContext (contexts s y) = parentContext (contexts t y) \<and>
          dependencies (contexts s y) = dependencies (contexts t y) \<and>
          subscriptions (contexts s y) = subscriptions (contexts t y) \<and>
          disposables (contexts s y) = disposables (contexts t y) \<and>
          disposables_id (contexts s y) = disposables_id (contexts t y))"

definition agree :: "result \<Rightarrow> result \<Rightarrow> bool" where
  "agree m m' =
     (case m of
        None \<Rightarrow> m' = None
      | Some (out, s) \<Rightarrow> (case m' of None \<Rightarrow> False | Some (out', t) \<Rightarrow> out = out' \<and> same_but_fn s t))"

definition same_call :: "state \<Rightarrow> call \<Rightarrow> call \<Rightarrow> bool" where
  "same_call s c c' =
     (c = c' \<or>
      (case c of
         Effect f \<Rightarrow> (case c' of Effect f' \<Rightarrow> f (next_context s) = f' (next_context s) | _ \<Rightarrow> False)
       | _ \<Rightarrow> False))"


section \<open>Unfolding the evaluator\<close>

lemma run_Suc: "run (Suc n) p s = run_body (eval n) p s"
  by simp

lemma write_signal_Suc: "write_signal (Suc n) c a s = write_body (eval n) c a s"
  by simp

lemma notify_Nil: "notify (Suc n) [] s = Some (Normal undefined_ret, s)"
  by simp

lemma notify_Cons:
  "notify (Suc n) (x # xs) s = and_then (execute n x s) (\<lambda>u. notify n xs)"
  by simp

lemma computed_Suc: "computed (Suc n) q s = computed_body (eval n) q s"
  by simp

lemma effect_Suc: "effect (Suc n) f s = effect_body (eval n) f s"
  by simp

lemma execute_Suc: "execute (Suc n) x s = execute_body (eval n) x s"
  by simp

lemma dispose_Suc: "dispose (Suc n) x s = dispose_body (eval n) x s"
  by simp

lemma dispose_each_Nil: "dispose_each (Suc n) [] s = Some (Normal undefined_ret, s)"
  by simp

lemma dispose_each_Cons:
  "dispose_each (Suc n) (x # xs) s = and_then (dispose n x s) (\<lambda>u. dispose_each n xs)"
  by simp

lemma call_each_Nil: "call_each (Suc n) [] s = Some (Normal undefined_ret, s)"
  by simp

lemma call_each_Cons:
  "call_each (Suc n) (d # ds) s = and_then (call_body (eval n) d s) (\<lambda>u. call_each n ds)"
  by simp

lemmas eval_Suc = run_Suc write_signal_Suc notify_Nil notify_Cons computed_Suc effect_Suc
  execute_Suc dispose_Suc dispose_each_Nil dispose_each_Cons call_each_Nil call_each_Cons

declare eval.simps(2) [simp del]

lemma jot_fields [simp]:
  "stack (jot e s) = stack s" "signals (jot e s) = signals s" "contexts (jot e s) = contexts s"
  "next_signal (jot e s) = next_signal s" "next_context (jot e s) = next_context s"
  "trace (jot e s) = trace s" "journal (jot e s) = journal s @ [e]"
  by (simp_all add: jot_def)

lemma tracked_read_eq:
  "tracked_read c s =
     (fst (read c s),
      case getCurrentContext s of None \<Rightarrow> snd (read c s) | Some x \<Rightarrow> jot (Tracked x c) (snd (read c s)))"
  by (cases "read c s") (simp add: tracked_read_def split: option.splits)


lemma tracked_read_fields [simp]:
  "stack (snd (tracked_read c s)) = stack (snd (read c s))"
  "signals (snd (tracked_read c s)) = signals (snd (read c s))"
  "contexts (snd (tracked_read c s)) = contexts (snd (read c s))"
  "next_signal (snd (tracked_read c s)) = next_signal (snd (read c s))"
  "next_context (snd (tracked_read c s)) = next_context (snd (read c s))"
  "trace (snd (tracked_read c s)) = trace (snd (read c s))"
  by (simp_all add: tracked_read_eq split: option.splits)

lemma tracked_read_cases:
  assumes "tracked_read c s = (v, s1)"
  obtains "v = fst (read c s)" "s1 = snd (read c s)"
  | x where "v = fst (read c s)" "s1 = jot (Tracked x c) (snd (read c s))"
  using assms by (auto simp: tracked_read_eq split: option.splits)

lemma write_noted_cases:
  obtains "write_noted c a s = s" | "write_noted c a s = jot (Changed c) s"
  by (cases "next_value a (data (signals s c)) = data (signals s c)")
     (simp_all add: write_noted_def)

lemma and_then_Some:
  "and_then m f = Some w \<longleftrightarrow>
     (\<exists>e s. m = Some (Raised e, s) \<and> w = (Raised e, s)) \<or>
     (\<exists>r s. m = Some (Normal r, s) \<and> f r s = Some w)"
  by (auto simp: and_then_def split: option.splits outcome.splits prod.splits)

lemma and_then_Normal:
  "and_then m f = Some (Normal r, s') \<longleftrightarrow>
     (\<exists>u s1. m = Some (Normal u, s1) \<and> f u s1 = Some (Normal r, s'))"
  by (auto simp: and_then_Some)

lemma try_finally_Some:
  "try_finally m g = Some w \<longleftrightarrow> (\<exists>out s. m = Some (out, s) \<and> w = (out, g s))"
  by (auto simp: try_finally_def split: option.splits prod.splits)

section \<open>More fuel changes no result\<close>

lemma le_res_refl [simp]: "le_res m m"
  by (simp add: le_res_def)

lemma le_res_None [simp]: "le_res None m"
  by (simp add: le_res_def)

lemma extendsD: "extends rec rec' \<Longrightarrow> le_res (rec t s) (rec' t s)"
  by (simp add: extends_def)

lemma le_res_and_then:
  "le_res m m' \<Longrightarrow> (\<And>r s. le_res (f r s) (f' r s)) \<Longrightarrow> le_res (and_then m f) (and_then m' f')"
  unfolding le_res_def and_then_def by (cases m) (force split: outcome.splits)+

lemma le_res_catch:
  "le_res m m' \<Longrightarrow> (\<And>s. le_res (h s) (h' s)) \<Longrightarrow> le_res (catch m h) (catch m' h')"
  unfolding le_res_def catch_def by (cases m) (force split: outcome.splits)+

lemma le_res_try_finally: "le_res m m' \<Longrightarrow> le_res (try_finally m g) (try_finally m' g)"
  by (auto simp: le_res_def try_finally_def)

lemma write_of_mono: "extends rec rec' \<Longrightarrow> le_res (write_of rec c r s) (write_of rec' c r s)"
  by (cases r)
     (auto simp: write_of_def extendsD intro!: le_res_and_then split: prod.splits ret.splits)

lemma run_body_mono: "extends rec rec' \<Longrightarrow> le_res (run_body rec p s) (run_body rec' p s)"
  by (cases p)
     (auto simp: run_body_def extendsD write_of_mono intro!: le_res_and_then le_res_catch
           split: prod.splits ret.splits)

lemma write_body_mono:
  "extends rec rec' \<Longrightarrow> le_res (write_body rec c a s) (write_body rec' c a s)"
  by (simp add: write_body_def Let_def extendsD)

lemma computed_body_mono:
  "extends rec rec' \<Longrightarrow> le_res (computed_body rec q s) (computed_body rec' q s)"
  by (auto simp: computed_body_def extendsD intro!: le_res_and_then split: prod.splits)

lemma effect_body_mono:
  "extends rec rec' \<Longrightarrow> le_res (effect_body rec f s) (effect_body rec' f s)"
  by (auto simp: effect_body_def extendsD intro!: le_res_and_then)

lemma execute_body_mono:
  "extends rec rec' \<Longrightarrow> le_res (execute_body rec x s) (execute_body rec' x s)"
  by (auto simp: execute_body_def Let_def extendsD intro!: le_res_and_then le_res_try_finally)

lemma dispose_body_mono:
  "extends rec rec' \<Longrightarrow> le_res (dispose_body rec x s) (dispose_body rec' x s)"
  by (auto simp: dispose_body_def Let_def extendsD intro!: le_res_and_then)

lemma call_body_mono:
  "extends rec rec' \<Longrightarrow> le_res (call_body rec d s) (call_body rec' d s)"
  by (cases d) (auto simp: call_body_def extendsD)

lemma eval_Suc_extends: "extends (eval n) (eval (Suc n))"
proof (induction n)
  case 0
  show ?case by (simp add: extends_def)
next
  case (Suc n)
  have h: "le_res (eval n t s) (eval (Suc n) t s)" for t s
    using Suc by (rule extendsD)
  have "le_res (eval (Suc n) t s) (eval (Suc (Suc n)) t s)" for t s
  proof (cases t)
    case (Notify xs)
    then show ?thesis
      by (cases xs) (auto simp only: notify_Nil notify_Cons le_res_refl intro!: le_res_and_then h)
  next
    case (DisposeEach xs)
    then show ?thesis
      by (cases xs)
         (auto simp only: dispose_each_Nil dispose_each_Cons le_res_refl intro!: le_res_and_then h)
  next
    case (CallEach ds)
    then show ?thesis
      by (cases ds)
         (auto simp only: call_each_Nil call_each_Cons le_res_refl
               intro!: le_res_and_then h call_body_mono Suc)
  qed (use Suc in \<open>simp_all only: eval_Suc run_body_mono write_body_mono computed_body_mono
        effect_body_mono execute_body_mono dispose_body_mono\<close>)
  then show ?case by (simp add: extends_def)
qed

lemma eval_mono: "eval n t s = Some w \<Longrightarrow> n \<le> m \<Longrightarrow> eval m t s = Some w"
proof (induction m)
  case 0
  then show ?case by simp
next
  case (Suc m)
  show ?case
  proof (cases "n = Suc m")
    case True with Suc.prems show ?thesis by simp
  next
    case False
    with Suc have "eval m t s = Some w" by simp
    moreover have "le_res (eval m t s) (eval (Suc m) t s)"
      using eval_Suc_extends by (rule extendsD)
    ultimately show ?thesis by (simp add: le_res_def)
  qed
qed

section \<open>Writing a cell\<close>

lemma notify_runs_in_order:
  "notify n xs s = Some (Normal r, s') \<Longrightarrow> runs_in_order xs s s'"
proof (induction n arbitrary: xs s)
  case 0
  then show ?case by simp
next
  case (Suc n)
  show ?case
  proof (cases xs)
    case Nil
    with Suc.prems show ?thesis by (simp add: notify_Nil rio_Nil)
  next
    case (Cons x ys)
    with Suc.prems obtain u s1 where
      "execute n x s = Some (Normal u, s1)" and "notify n ys s1 = Some (Normal r, s')"
      by (auto simp only: notify_Cons and_then_Normal)
    with Suc.IH Cons show ?thesis by (auto intro: rio_Cons)
  qed
qed

lemma runs_in_order_notify:
  "runs_in_order xs s s' \<Longrightarrow> \<exists>n. notify n xs s = Some (Normal undefined_ret, s')"
proof (induction rule: runs_in_order.induct)
  case (rio_Nil s)
  have "notify (Suc 0) [] s = Some (Normal undefined_ret, s)" by (simp add: notify_Nil)
  then show ?case by blast
next
  case (rio_Cons m x s u s1 xs s')
  then obtain n where n: "notify n xs s1 = Some (Normal undefined_ret, s')" by blast
  have "execute (max m n) x s = Some (Normal u, s1)"
    using rio_Cons.hyps(1) by (rule eval_mono) simp
  moreover have "notify (max m n) xs s1 = Some (Normal undefined_ret, s')"
    using n by (rule eval_mono) simp
  ultimately have "notify (Suc (max m n)) (x # xs) s = Some (Normal undefined_ret, s')"
    by (simp only: notify_Cons and_then_Normal) blast
  then show ?case by blast
qed

lemma setter_Suc: "setter (Suc n) r u s = setter_body (reval n) r u s"
  by simp

lemma detach_eq:
  "detach x ds s =
     s\<lparr>signals := (\<lambda>c. if c \<in> set ds
                        then (signals s c)\<lparr>sig_subscriptions := set_delete x (sig_subscriptions (signals s c))\<rparr>
                        else signals s c)\<rparr>"
proof (induction ds arbitrary: s)
  case Nil
  show ?case by (simp add: detach_def)
next
  case (Cons d ds)
  have "detach x (d # ds) s =
          detach x ds (upd_signal d (\<lambda>r. r\<lparr>sig_subscriptions := set_delete x (sig_subscriptions r)\<rparr>) s)"
    by (simp add: detach_def)
  also have "\<dots> = s\<lparr>signals := (\<lambda>c. if c \<in> set (d # ds)
                        then (signals s c)\<lparr>sig_subscriptions := set_delete x (sig_subscriptions (signals s c))\<rparr>
                        else signals s c)\<rparr>"
    unfolding Cons.IH by (auto simp: upd_signal_def set_delete_def fun_eq_iff)
  finally show ?case .
qed

lemma detach_cong_set: "set ds = set ds' \<Longrightarrow> detach x ds = detach x ds'"
  by (rule ext) (simp add: detach_eq)

text \<open>
  C2. A write whose next value (the literal, or the updater applied to the old value) is
  strictly equal to the current value of a cell of \<^verbatim>\<open>signal.js\<close> is a no-op: the state
  after it is the state before it, so neither the value nor any subscriber set changed and
  no subscriber ran (the trace is part of the state). The setter of a ref of
  \<^verbatim>\<open>reactive.js\<close> compares nothing: it stores the updater's result and dispatches it to
  the callbacks the ref has at that moment, whatever the value.
\<close>

theorem write_suppression:
  "(next_value a (data (signals s c)) = data (signals s c) \<longrightarrow>
      write_signal (Suc n) c a s = Some (Normal undefined_ret, s)) \<and>
   setter (Suc n) r u t =
     dispatch n (callbacks (refs t r)) (u (ref_data (refs t r)))
       (upd_ref r (\<lambda>c. c\<lparr>ref_data := u (ref_data c)\<rparr>) t)"
  by (simp add: write_signal_Suc write_body_def setter_Suc setter_body_def upd_ref_def)

theorem write_suppression_witness:
  "next_value (Lit (Num 5)) (data (signals counter_scenario 0)) = data (signals counter_scenario 0) \<and>
   write_signal (Suc 0) 0 (Lit (Num 5)) counter_scenario = Some (Normal undefined_ret, counter_scenario) \<and>
   next_value (Upd (\<lambda>v. v)) (data (signals counter_scenario 0)) = data (signals counter_scenario 0) \<and>
   write_signal (Suc 0) 0 (Upd (\<lambda>v. v)) counter_scenario = Some (Normal undefined_ret, counter_scenario)"
proof -
  have d: "data (signals counter_scenario 0) = Num 5"
    unfolding counter_scenario_def by code_simp
  have h1: "next_value (Lit (Num 5)) (data (signals counter_scenario 0)) = data (signals counter_scenario 0)"
    by (simp add: d next_value_def)
  have h2: "next_value (Upd (\<lambda>v. v)) (data (signals counter_scenario 0)) = data (signals counter_scenario 0)"
    by (simp add: next_value_def)
  from h1 h2 write_suppression [of "Lit (Num 5)" counter_scenario 0 0]
    write_suppression [of "Upd (\<lambda>v. v)" counter_scenario 0 0]
  show ?thesis by blast
qed

text \<open>
  C2, as stated for every cell, fails on a ref of \<^verbatim>\<open>reactive.js\<close>: the updater
  \<^verbatim>\<open>(v) => v\<close> leaves the value \<open>0\<close>, and the subscriber runs a second time.
\<close>

theorem setter_equal_value_counterexample:
  "ref_data (refs same_value_update 0) = Num 0 \<and>
   rtrace same_value_update =
     [RCalled (EffectFn 0), REmitted 1, REmitted 100, RCalled (EffectFn 0), REmitted 1]"
  unfolding same_value_update_def by code_simp

text \<open>
  C3. A write of \<^verbatim>\<open>signal.js\<close> whose next value differs from the current one returns
  normally with final state \<open>s'\<close> exactly when \<open>s'\<close> is reached by first storing the new
  value and then running, one after the other and each to its end, the contexts that the
  subscriber set of the cell holds at that moment, in insertion order. The list is fixed
  before the first run: what the runs add to or delete from the live set does not change
  who is run.
\<close>

theorem write_fan_out:
  assumes "next_value a (data (signals s c)) \<noteq> data (signals s c)"
  shows "(\<exists>n r. write_signal n c a s = Some (Normal r, s')) \<longleftrightarrow>
         runs_in_order (sig_subscriptions (signals s c))
           (upd_signal c (\<lambda>r. r\<lparr>data := next_value a (data (signals s c))\<rparr>) s) s'"
proof
  assume "\<exists>n r. write_signal n c a s = Some (Normal r, s')"
  then obtain n r where n: "write_signal n c a s = Some (Normal r, s')" by blast
  then obtain k where k: "n = Suc k" by (cases n) auto
  from n assms show "runs_in_order (sig_subscriptions (signals s c))
           (upd_signal c (\<lambda>r. r\<lparr>data := next_value a (data (signals s c))\<rparr>) s) s'"
    unfolding k write_signal_Suc write_body_def
    by (auto simp: Let_def upd_signal_def dest: notify_runs_in_order)
next
  assume "runs_in_order (sig_subscriptions (signals s c))
           (upd_signal c (\<lambda>r. r\<lparr>data := next_value a (data (signals s c))\<rparr>) s) s'"
  then obtain n where "notify n (sig_subscriptions (signals s c))
      (upd_signal c (\<lambda>r. r\<lparr>data := next_value a (data (signals s c))\<rparr>) s)
      = Some (Normal undefined_ret, s')"
    using runs_in_order_notify by blast
  with assms have "write_signal (Suc n) c a s = Some (Normal undefined_ret, s')"
    by (simp add: write_signal_Suc write_body_def Let_def upd_signal_def)
  then show "\<exists>n r. write_signal n c a s = Some (Normal r, s')" by blast
qed

theorem write_fan_out_witness:
  "next_value (Lit (Num 1)) (data (signals two_subscribers 0)) \<noteq> data (signals two_subscribers 0) \<and>
   runs_in_order [0, 1]
     (upd_signal 0 (\<lambda>r. r\<lparr>data := Num 1\<rparr>) two_subscribers)
     (state_of (write_signal 9 0 (Lit (Num 1)) two_subscribers))"
proof -
  have d: "data (signals two_subscribers 0) = Num 0"
    and l: "sig_subscriptions (signals two_subscribers 0) = [0, 1]"
    and r: "returned (write_signal 9 0 (Lit (Num 1)) two_subscribers)"
    unfolding two_subscribers_def by code_simp+
  have h: "next_value (Lit (Num 1)) (data (signals two_subscribers 0)) \<noteq> data (signals two_subscribers 0)"
    by (simp add: d next_value_def)
  from r obtain v where "write_signal 9 0 (Lit (Num 1)) two_subscribers =
      Some (Normal v, state_of (write_signal 9 0 (Lit (Num 1)) two_subscribers))"
    by (auto simp: returned_def state_of_def split: option.splits outcome.splits)
  then have "\<exists>n r. write_signal n 0 (Lit (Num 1)) two_subscribers =
      Some (Normal r, state_of (write_signal 9 0 (Lit (Num 1)) two_subscribers))"
    by blast
  with write_fan_out [OF h, of "state_of (write_signal 9 0 (Lit (Num 1)) two_subscribers)"]
  show ?thesis using h by (simp add: l d next_value_def)
qed

section \<open>Reading a cell\<close>

lemma read_None: "getCurrentContext s = None \<Longrightarrow> read c s = (data (signals s c), s)"
  by (simp add: read_def)

lemma read_Some:
  "getCurrentContext s = Some x \<Longrightarrow>
   read c s =
     (data (signals s c),
      s\<lparr>signals := (signals s)(c := (signals s c)
            \<lparr>sig_subscriptions := set_add x (sig_subscriptions (signals s c))\<rparr>),
        contexts := (contexts s)(x := (contexts s x)
            \<lparr>dependencies := dependencies (contexts s x) @ [c]\<rparr>)\<rparr>)"
  by (simp add: read_def upd_signal_def upd_context_def Let_def)

lemma stack_read [simp]: "stack (snd (read c s)) = stack s"
  by (cases "getCurrentContext s") (simp_all add: read_None read_Some)

lemma getCurrentContext_read [simp]: "getCurrentContext (snd (read c s)) = getCurrentContext s"
  by (simp add: getCurrentContext_def)

lemma dependencies_read:
  "getCurrentContext s = Some x \<Longrightarrow>
   dependencies (contexts (snd (read c s)) x) = dependencies (contexts s x) @ [c]"
  by (simp add: read_Some)

text \<open>
  C8. \<^verbatim>\<open>read\<close> returns the value the cell holds. With no context on the stack it changes
  nothing. With a context on top it adds that context to the subscriber set of the cell,
  appends the cell's set to the dependencies of the context, and changes nothing else; a
  second read appends the same reference once more, and detaching over the longer list is
  the same function as over the shorter one.
\<close>

theorem read_contract:
  "fst (read c s) = data (signals s c) \<and>
   (getCurrentContext s = None \<longrightarrow> snd (read c s) = s) \<and>
   (\<forall>x. getCurrentContext s = Some x \<longrightarrow>
      snd (read c s) =
        s\<lparr>signals := (signals s)(c := (signals s c)
              \<lparr>sig_subscriptions := set_add x (sig_subscriptions (signals s c))\<rparr>),
          contexts := (contexts s)(x := (contexts s x)
              \<lparr>dependencies := dependencies (contexts s x) @ [c]\<rparr>)\<rparr> \<and>
      detach x (dependencies (contexts (snd (read c (snd (read c s)))) x)) =
        detach x (dependencies (contexts (snd (read c s)) x)))"
proof (intro conjI allI impI)
  show "fst (read c s) = data (signals s c)"
    by (cases "getCurrentContext s") (simp_all add: read_None read_Some)
next
  assume "getCurrentContext s = None"
  then show "snd (read c s) = s" by (simp add: read_None)
next
  fix x assume "getCurrentContext s = Some x"
  then show "snd (read c s) =
        s\<lparr>signals := (signals s)(c := (signals s c)
              \<lparr>sig_subscriptions := set_add x (sig_subscriptions (signals s c))\<rparr>),
          contexts := (contexts s)(x := (contexts s x)
              \<lparr>dependencies := dependencies (contexts s x) @ [c]\<rparr>)\<rparr>"
    by (simp add: read_Some)
next
  fix x assume x: "getCurrentContext s = Some x"
  then have "getCurrentContext (snd (read c s)) = Some x" by simp
  then have "dependencies (contexts (snd (read c (snd (read c s)))) x) =
             dependencies (contexts (snd (read c s)) x) @ [c]"
    by (rule dependencies_read)
  moreover have "dependencies (contexts (snd (read c s)) x) = dependencies (contexts s x) @ [c]"
    using x by (rule dependencies_read)
  ultimately show "detach x (dependencies (contexts (snd (read c (snd (read c s)))) x)) =
        detach x (dependencies (contexts (snd (read c s)) x))"
    by (intro detach_cong_set) simp
qed

theorem read_contract_witness:
  "getCurrentContext init = None \<and> snd (read 0 init) = init \<and>
   getCurrentContext (startTracking 3 init) = Some 3 \<and>
   sig_subscriptions (signals (snd (read 0 (startTracking 3 init))) 0) = [3] \<and>
   dependencies (contexts (snd (read 0 (startTracking 3 init))) 3) = [0]"
proof -
  have a: "getCurrentContext init = None"
    by (simp add: getCurrentContext_def init_def)
  have b: "getCurrentContext (startTracking 3 init) = Some 3"
    by (simp add: getCurrentContext_def startTracking_def init_def)
  from read_contract [of 0 init] a have "snd (read 0 init) = init" by blast
  moreover from read_contract [of 0 "startTracking 3 init"] b
  have "snd (read 0 (startTracking 3 init)) =
        (startTracking 3 init)\<lparr>signals := (signals (startTracking 3 init))(0 := (signals (startTracking 3 init) 0)
              \<lparr>sig_subscriptions := set_add 3 (sig_subscriptions (signals (startTracking 3 init) 0))\<rparr>),
          contexts := (contexts (startTracking 3 init))(3 := (contexts (startTracking 3 init) 3)
              \<lparr>dependencies := dependencies (contexts (startTracking 3 init) 3) @ [0]\<rparr>)\<rparr>"
    by blast
  ultimately show ?thesis
    using a b by (simp add: startTracking_def init_def set_add_def)
qed

section \<open>A context that is not subscribed is not run\<close>

lemma idle_read: "idle x f s \<Longrightarrow> idle x f (snd (read c s))"
  by (cases "getCurrentContext s")
     (auto simp: idle_def read_None read_Some set_add_def getCurrentContext_def split: if_splits)

lemma idle_read_pair: "idle x f s \<Longrightarrow> read c s = (v, s1) \<Longrightarrow> idle x f s1"
  using idle_read[of x f s c] by simp

lemma idle_jot: "idle x f s \<Longrightarrow> idle x f (jot e s)"
  by (simp add: idle_def)

lemma idle_tracked_read: "idle x f s \<Longrightarrow> tracked_read c s = (v, s1) \<Longrightarrow> idle x f s1"
  by (erule tracked_read_cases) (auto intro: idle_jot idle_read)

lemma idle_write_noted: "idle x f s \<Longrightarrow> idle x f (write_noted c a s)"
  by (rule write_noted_cases[of c a s]) (auto intro: idle_jot)

lemma idle_signal: "idle x f s \<Longrightarrow> idle x f (snd (signal v s))"
  by (auto simp: idle_def signal_def Let_def)

lemma idle_new_context: "idle x f s \<Longrightarrow> idle x f (new_context g s)"
  by (auto simp: idle_def new_context_def)

lemma idle_emit: "idle x f s \<Longrightarrow> idle x f (emit e s)"
  by (auto simp: idle_def emit_def)

lemma idle_detach: "idle x f s \<Longrightarrow> idle x f (detach y ds s)"
  by (auto simp: idle_def detach_eq set_delete_def)

lemma idle_upd_context:
  "idle x f s \<Longrightarrow> (\<And>r. fn (g r) = fn r) \<Longrightarrow>
   (\<And>r. dependencies r = [] \<Longrightarrow> dependencies (g r) = []) \<Longrightarrow> idle x f (upd_context y g s)"
  by (auto simp: idle_def upd_context_def)

lemma idle_register_child: "idle x f s \<Longrightarrow> idle x f (register_child y s)"
  by (auto simp: register_child_def intro: idle_upd_context split: option.splits)

lemma idle_startTracking: "idle x f s \<Longrightarrow> y \<noteq> x \<Longrightarrow> idle x f (startTracking y s)"
  by (auto simp: idle_def startTracking_def)

lemma idle_stopTracking: "idle x f s \<Longrightarrow> idle x f (stopTracking s)"
  by (auto simp: idle_def stopTracking_def dest: in_set_butlastD)

lemma idle_push_disposable: "idle x f s \<Longrightarrow> idle x f (push_disposable a y d s)"
  by (auto simp: push_disposable_def intro: idle_upd_context)

lemma idle_upd_data: "idle x f s \<Longrightarrow> idle x f (upd_signal c (\<lambda>r. r\<lparr>data := v\<rparr>) s)"
  by (auto simp: idle_def upd_signal_def)

lemma idle_subscriptions: "idle x f s \<Longrightarrow> x \<notin> set (sig_subscriptions (signals s c))"
  by (simp add: idle_def)

lemma idle_fresh: "idle x f s \<Longrightarrow> next_context s \<noteq> x"
  by (auto simp: idle_def)

lemma postD: "post m P \<Longrightarrow> m = Some (out, s') \<Longrightarrow> P s'"
  by (simp add: post_def)

lemma post_None [simp]: "post None P"
  by (simp add: post_def)

lemma post_Some [simp]: "post (Some (out, s)) P \<longleftrightarrow> P s"
  by (simp add: post_def)

lemma post_and_then:
  "post m P \<Longrightarrow> (\<And>r s. P s \<Longrightarrow> post (f r s) P) \<Longrightarrow> post (and_then m f) P"
  unfolding post_def and_then_Some by blast

lemma post_catch:
  "post m P \<Longrightarrow> (\<And>s. P s \<Longrightarrow> post (h s) P) \<Longrightarrow> post (catch m h) P"
  unfolding post_def catch_def by (auto split: option.splits outcome.splits prod.splits)

lemma post_try_finally:
  "post m P \<Longrightarrow> (\<And>s. P s \<Longrightarrow> P (g s)) \<Longrightarrow> post (try_finally m g) P"
  unfolding post_def try_finally_Some by blast

lemma idle_preserved: "idle x f s \<Longrightarrow> spares x t \<Longrightarrow> post (eval n t s) (idle x f)"
proof (induction n arbitrary: t s)
  case 0
  then show ?case by simp
next
  case (Suc n)
  note IH = Suc.IH
  have run: "post (run n p s) (idle x f)" if "idle x f s" for p s
    using that by (rule IH) (simp add: spares_def)
  have disp: "post (dispose n y s) (idle x f)" if "idle x f s" for y s
    using that by (rule IH) (simp add: spares_def)
  have wr: "post (write_signal n c a s) (idle x f)" if "idle x f s" for c a s
    using that by (rule IH) (simp add: spares_def)
  have ex: "post (execute n y s) (idle x f)" if "idle x f s" "y \<noteq> x" for y s
    using that(1) by (rule IH) (simp add: spares_def that(2))
  have nt: "post (notify n ys s) (idle x f)" if "idle x f s" "x \<notin> set ys" for ys s
    using that(1) by (rule IH) (simp add: spares_def that(2))
  have cm: "post (computed n q s) (idle x f)" if "idle x f s" for q s
    using that by (rule IH) (simp add: spares_def)
  have ef: "post (effect n g s) (idle x f)" if "idle x f s" for g s
    using that by (rule IH) (simp add: spares_def)
  have de: "post (dispose_each n ys s) (idle x f)" if "idle x f s" for ys s
    using that by (rule IH) (simp add: spares_def)
  have ce: "post (call_each n ds s) (idle x f)" if "idle x f s" for ds s
    using that by (rule IH) (simp add: spares_def)
  have wo: "post (write_of (eval n) c r s) (idle x f)" if "idle x f s" for c r s
    using that
    by (cases r)
       (auto simp: write_of_def split: prod.splits ret.splits
             intro!: post_and_then run wr idle_write_noted elim: idle_tracked_read)
  note i = Suc.prems(1)
  show ?case
  proof (cases t)
    case (Run p)
    have "post (run_body (eval n) p s) (idle x f)"
    proof (cases p)
      case (Read c k)
      with i show ?thesis
        by (auto simp: run_body_def split: prod.splits intro!: run elim: idle_tracked_read)
    next
      case (WriteOf c q)
      with i show ?thesis
        by (auto simp: run_body_def intro!: post_and_then run wo)
    next
      case (NewSignal v k)
      with i show ?thesis
        by (auto simp: run_body_def split: prod.splits intro!: run idle_jot
                 dest: idle_signal[where v=v])
    qed (use i in \<open>auto simp: run_body_def
           intro!: post_and_then post_catch run wr cm ef disp idle_emit idle_jot
                   idle_write_noted\<close>)
    with Run show ?thesis by (simp add: run_Suc)
  next
    case (WriteSignal c a)
    have "post (write_body (eval n) c a s) (idle x f)"
      using i
      by (auto simp: write_body_def Let_def intro!: nt idle_upd_data
               dest: idle_subscriptions[OF idle_upd_data])
    with WriteSignal show ?thesis by (simp add: write_signal_Suc)
  next
    case (Notify xs)
    with i Suc.prems(2) show ?thesis
      by (cases xs) (auto simp: notify_Nil notify_Cons spares_def intro!: post_and_then ex nt)
  next
    case (Computed q)
    have "post (computed_body (eval n) q s) (idle x f)"
      using i
      by (auto simp: computed_body_def split: prod.splits intro!: post_and_then ef idle_jot
               dest: idle_signal[where v=Undefined])
    with Computed show ?thesis by (simp add: computed_Suc)
  next
    case (Effect g)
    have "post (effect_body (eval n) g s) (idle x f)"
      using i by (auto simp: effect_body_def intro!: post_and_then ex idle_new_context dest: idle_fresh)
    with Effect show ?thesis by (simp add: effect_Suc)
  next
    case (Execute y)
    with Suc.prems(2) have yx: "y \<noteq> x" by (simp add: spares_def)
    have "post (execute_body (eval n) y s) (idle x f)"
      using i yx
      by (auto simp: execute_body_def Let_def
               intro!: post_try_finally post_and_then disp run idle_emit idle_startTracking
                       idle_register_child idle_push_disposable idle_stopTracking)
    with Execute show ?thesis by (simp add: execute_Suc)
  next
    case (Dispose y)
    have "post (dispose_body (eval n) y s) (idle x f)"
      using i
      by (auto simp: dispose_body_def Let_def
               intro!: post_and_then de ce idle_upd_context idle_detach)
    with Dispose show ?thesis by (simp add: dispose_Suc)
  next
    case (DisposeEach ys)
    with i show ?thesis
      by (cases ys) (auto simp: dispose_each_Nil dispose_each_Cons intro!: post_and_then disp de)
  next
    case (CallEach ds)
    show ?thesis
    proof (cases ds)
      case Nil
      with CallEach i show ?thesis by (simp add: call_each_Nil)
    next
      case (Cons d es)
      have "post (call_body (eval n) d s) (idle x f)"
        using i
        by (cases d)
           (auto simp: call_body_def split: prod.splits intro!: run wr idle_write_noted
                 elim: idle_tracked_read)
      with Cons CallEach show ?thesis
        by (auto simp: call_each_Cons intro!: post_and_then ce)
    qed
  qed
qed

section \<open>Subscriber sets and dependencies agree\<close>

lemma post_weaken: "post m P \<Longrightarrow> (\<And>s. P s \<Longrightarrow> Q s) \<Longrightarrow> post m Q"
  unfolding post_def by blast

lemma wf_init: "wf init"
  by (simp add: wf_def init_def)

lemma wf_from_mono: "wf_from b s \<Longrightarrow> a \<le> b \<Longrightarrow> wf_from a s"
  by (simp add: wf_from_def)

lemma wf_from_read: "wf_from b s \<Longrightarrow> read c s = (v, s1) \<Longrightarrow> wf_from b s1"
  by (cases "getCurrentContext s")
     (auto simp: wf_from_def wf_def read_None read_Some set_add_def getCurrentContext_def
           split: if_splits)

lemma wf_from_jot: "wf_from b s \<Longrightarrow> wf_from b (jot e s)"
  by (simp add: wf_from_def wf_def)

lemma wf_from_tracked_read: "wf_from b s \<Longrightarrow> tracked_read c s = (v, s1) \<Longrightarrow> wf_from b s1"
  by (erule tracked_read_cases) (auto intro: wf_from_jot wf_from_read[OF _ surjective_pairing])

lemma wf_from_write_noted: "wf_from b s \<Longrightarrow> wf_from b (write_noted c a s)"
  by (rule write_noted_cases[of c a s]) (auto intro: wf_from_jot)

lemma wf_from_signal: "wf_from b s \<Longrightarrow> signal v s = (r, s1) \<Longrightarrow> wf_from b s1"
  by (auto simp: wf_from_def wf_def signal_def Let_def split: if_splits)

lemma wf_from_new_context: "wf_from b s \<Longrightarrow> wf_from (Suc (next_context s)) (new_context g s)"
  by (fastforce simp: wf_from_def wf_def new_context_def)

lemma wf_from_emit: "wf_from b s \<Longrightarrow> wf_from b (emit e s)"
  by (auto simp: wf_from_def wf_def emit_def)

lemma wf_from_detach:
  "wf_from b s \<Longrightarrow>
   wf_from b (upd_context y (\<lambda>r. r\<lparr>dependencies := []\<rparr>) (detach y (dependencies (contexts s y)) s))"
  by (fastforce simp: wf_from_def wf_def detach_eq set_delete_def upd_context_def)

lemma wf_from_upd_context:
  "wf_from b s \<Longrightarrow> (\<And>r. dependencies (g r) = dependencies r) \<Longrightarrow> wf_from b (upd_context y g s)"
  by (auto simp: wf_from_def wf_def upd_context_def)

lemma wf_from_register_child: "wf_from b s \<Longrightarrow> wf_from b (register_child y s)"
  by (auto simp: register_child_def intro: wf_from_upd_context split: option.splits)

lemma wf_from_startTracking: "wf_from b s \<Longrightarrow> y < b \<Longrightarrow> wf_from b (startTracking y s)"
  by (auto simp: wf_from_def wf_def startTracking_def)

lemma wf_from_stopTracking: "wf_from b s \<Longrightarrow> wf_from b (stopTracking s)"
  by (auto simp: wf_from_def wf_def stopTracking_def dest: in_set_butlastD)

lemma wf_from_push_disposable: "wf_from b s \<Longrightarrow> wf_from b (push_disposable a y d s)"
  by (auto simp: push_disposable_def intro: wf_from_upd_context)

lemma wf_from_upd_data: "wf_from b s \<Longrightarrow> wf_from b (upd_signal c (\<lambda>r. r\<lparr>data := v\<rparr>) s)"
  by (auto simp: wf_from_def wf_def upd_signal_def)

lemma wf_from_subscribers:
  "wf_from b s \<Longrightarrow> y \<in> set (sig_subscriptions (signals s c)) \<Longrightarrow> y < next_context s"
  by (auto simp: wf_from_def wf_def)

lemma wf_preserved: "wf_from b s \<Longrightarrow> exists_below b t \<Longrightarrow> post (eval n t s) (wf_from b)"
proof (induction n arbitrary: t s b)
  case 0
  then show ?case by simp
next
  case (Suc n)
  note IH = Suc.IH
  have run: "post (run n p s) (wf_from b)" if "wf_from b s" for p s b
    using that by (rule IH) (simp add: exists_below_def)
  have disp: "post (dispose n y s) (wf_from b)" if "wf_from b s" for y s b
    using that by (rule IH) (simp add: exists_below_def)
  have wr: "post (write_signal n c a s) (wf_from b)" if "wf_from b s" for c a s b
    using that by (rule IH) (simp add: exists_below_def)
  have ex: "post (execute n y s) (wf_from b)" if "wf_from b s" "y < b" for y s b
    using that(1) by (rule IH) (simp add: exists_below_def that(2))
  have nt: "post (notify n ys s) (wf_from b)" if "wf_from b s" "\<forall>y \<in> set ys. y < b" for ys s b
    using that(1) by (rule IH) (simp add: exists_below_def that(2))
  have cm: "post (computed n q s) (wf_from b)" if "wf_from b s" for q s b
    using that by (rule IH) (simp add: exists_below_def)
  have ef: "post (effect n g s) (wf_from b)" if "wf_from b s" for g s b
    using that by (rule IH) (simp add: exists_below_def)
  have de: "post (dispose_each n ys s) (wf_from b)" if "wf_from b s" for ys s b
    using that by (rule IH) (simp add: exists_below_def)
  have ce: "post (call_each n ds s) (wf_from b)" if "wf_from b s" for ds s b
    using that by (rule IH) (simp add: exists_below_def)
  have wo: "post (write_of (eval n) c r s) (wf_from b)" if "wf_from b s" for c r s b
    using that
    by (cases r)
       (auto simp: write_of_def split: prod.splits ret.splits
             intro!: post_and_then run wr wf_from_write_noted elim: wf_from_tracked_read)
  note i = Suc.prems(1)
  show ?case
  proof (cases t)
    case (Run p)
    have "post (run_body (eval n) p s) (wf_from b)"
    proof (cases p)
      case (Read c k)
      with i show ?thesis
        by (auto simp: run_body_def split: prod.splits intro!: run elim: wf_from_tracked_read)
    next
      case (WriteOf c q)
      with i show ?thesis
        by (auto simp: run_body_def intro!: post_and_then run wo)
    next
      case (NewSignal v k)
      with i show ?thesis
        by (auto simp: run_body_def split: prod.splits intro!: run wf_from_jot
                 elim: wf_from_signal)
    qed (use i in \<open>auto simp: run_body_def
           intro!: post_and_then post_catch run wr cm ef disp wf_from_emit wf_from_jot
                   wf_from_write_noted\<close>)
    with Run show ?thesis by (simp add: run_Suc)
  next
    case (WriteSignal c a)
    have "post (write_body (eval n) c a s) (wf_from b)"
    proof (cases "next_value a (data (signals s c)) = data (signals s c)")
      case True
      with i show ?thesis by (simp add: write_body_def)
    next
      case False
      define s1 where "s1 = upd_signal c (\<lambda>r. r\<lparr>data := next_value a (data (signals s c))\<rparr>) s"
      have w1: "wf_from b s1" unfolding s1_def using i by (rule wf_from_upd_data)
      then have w2: "wf_from (next_context s1) s1" by (simp add: wf_from_def)
      have "\<forall>y \<in> set (sig_subscriptions (signals s1 c)). y < next_context s1"
        using w1 by (auto dest: wf_from_subscribers)
      with w2 have "post (notify n (sig_subscriptions (signals s1 c)) s1) (wf_from (next_context s1))"
        by (rule nt)
      then have "post (notify n (sig_subscriptions (signals s1 c)) s1) (wf_from b)"
        by (rule post_weaken) (use w1 in \<open>auto simp: wf_from_def\<close>)
      with False show ?thesis by (simp add: write_body_def Let_def s1_def)
    qed
    with WriteSignal show ?thesis by (simp add: write_signal_Suc)
  next
    case (Notify xs)
    with i Suc.prems(2) show ?thesis
      by (cases xs) (auto simp: notify_Nil notify_Cons exists_below_def intro!: post_and_then ex nt)
  next
    case (Computed q)
    have "post (computed_body (eval n) q s) (wf_from b)"
      using i
      by (auto simp: computed_body_def split: prod.splits intro!: post_and_then ef wf_from_jot
               elim: wf_from_signal)
    with Computed show ?thesis by (simp add: computed_Suc)
  next
    case (Effect g)
    have "post (execute n (next_context s) (new_context g s)) (wf_from (Suc (next_context s)))"
      using i by (intro ex wf_from_new_context) simp_all
    then have "post (execute n (next_context s) (new_context g s)) (wf_from b)"
      by (rule post_weaken) (use i in \<open>auto simp: wf_from_def\<close>)
    then have "post (effect_body (eval n) g s) (wf_from b)"
      by (auto simp: effect_body_def intro!: post_and_then)
    with Effect show ?thesis by (simp add: effect_Suc)
  next
    case (Execute y)
    with Suc.prems(2) have yb: "y < b" by (simp add: exists_below_def)
    have "post (execute_body (eval n) y s) (wf_from b)"
      using i yb
      by (auto simp: execute_body_def Let_def
               intro!: post_try_finally post_and_then disp run wf_from_emit wf_from_startTracking
                       wf_from_register_child wf_from_push_disposable wf_from_stopTracking)
    with Execute show ?thesis by (simp add: execute_Suc)
  next
    case (Dispose y)
    have "post (dispose_body (eval n) y s) (wf_from b)"
      using i
      by (auto simp: dispose_body_def Let_def
               intro!: post_and_then de ce wf_from_upd_context wf_from_detach)
    with Dispose show ?thesis by (simp add: dispose_Suc)
  next
    case (DisposeEach ys)
    with i show ?thesis
      by (cases ys) (auto simp: dispose_each_Nil dispose_each_Cons intro!: post_and_then disp de)
  next
    case (CallEach ds)
    show ?thesis
    proof (cases ds)
      case Nil
      with CallEach i show ?thesis by (simp add: call_each_Nil)
    next
      case (Cons d es)
      have "post (call_body (eval n) d s) (wf_from b)"
        using i
        by (cases d)
           (auto simp: call_body_def split: prod.splits intro!: run wr wf_from_write_noted
                 elim: wf_from_tracked_read)
      with Cons CallEach show ?thesis
        by (auto simp: call_each_Cons intro!: post_and_then ce)
    qed
  qed
qed

lemma run_wf: "wf s \<Longrightarrow> run n p s = Some (out, s') \<Longrightarrow> wf s'"
  using wf_preserved[of 0 s "Run p" n] by (auto simp: wf_from_def exists_below_def dest: postD)

section \<open>Running a body that only reads\<close>

lemma getCurrentContext_emit [simp]: "getCurrentContext (emit e s) = getCurrentContext s"
  by (simp add: getCurrentContext_def emit_def)

lemma getCurrentContext_tracked_read [simp]:
  "getCurrentContext (snd (tracked_read c s)) = getCurrentContext s"
  by (simp add: getCurrentContext_def)








section \<open>Dependencies are found anew on every run\<close>

lemma dispose_idle:
  assumes "wf s" and "x < next_context s" and "x \<notin> set (stack s)"
  shows "post (dispose n x s) (idle x (fn (contexts s x)))"
proof (cases n)
  case 0
  then show ?thesis by simp
next
  case (Suc k)
  define s1 where "s1 = upd_context x (\<lambda>r. r\<lparr>dependencies := []\<rparr>)
                          (detach x (dependencies (contexts s x)) s)"
  have i: "idle x (fn (contexts s x)) s1"
    using assms
    by (auto simp: s1_def idle_def wf_def detach_eq upd_context_def set_delete_def)
  have de: "post (dispose_each k ys t) (idle x (fn (contexts s x)))"
    if "idle x (fn (contexts s x)) t" for ys t
    using that by (rule idle_preserved) (simp add: spares_def)
  have ce: "post (call_each k ds t) (idle x (fn (contexts s x)))"
    if "idle x (fn (contexts s x)) t" for ds t
    using that by (rule idle_preserved) (simp add: spares_def)
  have "post (dispose_body (eval k) x s) (idle x (fn (contexts s x)))"
    using i unfolding dispose_body_def Let_def s1_def[symmetric]
    by (auto intro!: post_and_then de ce idle_upd_context)
  with Suc show ?thesis by (simp add: dispose_Suc)
qed


lemmas engine_defs = run_body_def write_body_def computed_body_def effect_body_def
  execute_body_def dispose_body_def call_body_def and_then_def try_finally_def
  signal_def read_def new_context_def register_child_def emit_def detach_def nullish_def
  push_disposable_def startTracking_def stopTracking_def getCurrentContext_def
  upd_signal_def upd_context_def set_add_def set_delete_def next_value_def undefined_ret_def
  tracked_read_def write_noted_def write_of_def jot_def state_of_def Let_def

lemma contexts_register_child_fn [simp]:
  "fn (contexts (register_child y s) x) = fn (contexts s x)"
  by (simp add: register_child_def upd_context_def split: option.splits)

lemma signals_register_child [simp]: "signals (register_child y s) = signals s"
  by (simp add: register_child_def upd_context_def split: option.splits)

lemma signals_push_disposable [simp]: "signals (push_disposable a y d s) = signals s"
  by (simp add: push_disposable_def upd_context_def)




section \<open>Disposal\<close>

lemma dispose_unfold:
  "dispose (Suc n) x s =
     and_then (dispose_each n (subscriptions (contexts (clear_dependencies x s) x)) (clear_dependencies x s))
       (\<lambda>u s2. and_then (call_each n (disposables (contexts (clear_children x s2) x)) (clear_children x s2))
          (\<lambda>u s4. Some (Normal undefined_ret, clear_cleanups x s4)))"
  by (simp add: dispose_Suc dispose_body_def Let_def clear_dependencies_def clear_children_def
                clear_cleanups_def)

lemma eval_extends: "n \<le> m \<Longrightarrow> extends (eval n) (eval m)"
  unfolding extends_def le_res_def using eval_mono by (metis not_None_eq)

lemma call_body_fuel:
  "call_body (eval n) d s = Some w \<Longrightarrow> n \<le> m \<Longrightarrow> call_body (eval m) d s = Some w"
  using call_body_mono[OF eval_extends, of n m d s] by (simp add: le_res_def)

lemma dispose_teardown:
  "(dispose n x s = Some (Normal r, s') \<longrightarrow> teardown x s s') \<and>
   (dispose_each n ys s = Some (Normal r, s') \<longrightarrow> teardown_each ys s s') \<and>
   (call_each n ds s = Some (Normal r, s') \<longrightarrow> cleanup_each ds s s')"
proof (induction n arbitrary: x ys ds s r s')
  case 0
  show ?case by simp
next
  case (Suc n)
  have a: "teardown x s s'" if "dispose (Suc n) x s = Some (Normal r, s')"
    using that unfolding dispose_unfold and_then_Normal
    by (auto intro: td dest: Suc.IH[THEN conjunct2, THEN conjunct1, rule_format]
                         Suc.IH[THEN conjunct2, THEN conjunct2, rule_format])
  have b: "teardown_each ys s s'" if "dispose_each (Suc n) ys s = Some (Normal r, s')"
  proof (cases ys)
    case Nil
    with that show ?thesis by (simp add: dispose_each_Nil te_Nil)
  next
    case (Cons y zs)
    with that show ?thesis
      unfolding Cons dispose_each_Cons and_then_Normal
      by (auto intro: te_Cons dest: Suc.IH[THEN conjunct1, rule_format]
                           Suc.IH[THEN conjunct2, THEN conjunct1, rule_format])
  qed
  have c: "cleanup_each ds s s'" if "call_each (Suc n) ds s = Some (Normal r, s')"
  proof (cases ds)
    case Nil
    with that show ?thesis by (simp add: call_each_Nil ce_Nil)
  next
    case (Cons d es)
    with that show ?thesis
      unfolding Cons call_each_Cons and_then_Normal
      by (auto intro: ce_Cons dest: Suc.IH[THEN conjunct2, THEN conjunct2, rule_format])
  qed
  from a b c show ?case by blast
qed

lemma teardown_dispose:
  shows "teardown x s s' \<Longrightarrow> \<exists>n. dispose n x s = Some (Normal undefined_ret, s')"
    and "teardown_each ys s s' \<Longrightarrow> \<exists>n. dispose_each n ys s = Some (Normal undefined_ret, s')"
    and "cleanup_each ds s s' \<Longrightarrow> \<exists>n. call_each n ds s = Some (Normal undefined_ret, s')"
  proof (induction rule: teardown_teardown_each_cleanup_each.inducts)
  case (td x s s1 s2)
    then obtain n m where
      n: "dispose_each n (subscriptions (contexts (clear_dependencies x s) x)) (clear_dependencies x s)
            = Some (Normal undefined_ret, s1)"
      and m: "call_each m (disposables (contexts (clear_children x s1) x)) (clear_children x s1)
            = Some (Normal undefined_ret, s2)"
      by blast
    have "dispose (Suc (max n m)) x s = Some (Normal undefined_ret, clear_cleanups x s2)"
      unfolding dispose_unfold and_then_Normal
      using eval_mono[OF n, of "max n m"] eval_mono[OF m, of "max n m"] by auto
    then show ?case by blast
  next
    case (te_Nil s)
    have "dispose_each (Suc 0) [] s = Some (Normal undefined_ret, s)" by (simp add: dispose_each_Nil)
    then show ?case by blast
  next
    case (te_Cons y s s1 ys s')
    then obtain n m where
      n: "dispose n y s = Some (Normal undefined_ret, s1)"
      and m: "dispose_each m ys s1 = Some (Normal undefined_ret, s')"
      by blast
    have "dispose_each (Suc (max n m)) (y # ys) s = Some (Normal undefined_ret, s')"
      unfolding dispose_each_Cons and_then_Normal
      using eval_mono[OF n, of "max n m"] eval_mono[OF m, of "max n m"] by auto
    then show ?case by blast
  next
    case (ce_Nil s)
    have "call_each (Suc 0) [] s = Some (Normal undefined_ret, s)" by (simp add: call_each_Nil)
    then show ?case by blast
  next
    case (ce_Cons k d s r s1 ds s')
    then obtain m where m: "call_each m ds s1 = Some (Normal undefined_ret, s')" by blast
    have "call_each (Suc (max k m)) (d # ds) s = Some (Normal undefined_ret, s')"
      unfolding call_each_Cons and_then_Normal
      using call_body_fuel[OF ce_Cons.hyps(1), of "max k m"] eval_mono[OF m, of "max k m"] by auto
    then show ?case by blast
qed

lemma disposed_noop:
  assumes "disposed x s"
  shows "dispose (Suc (Suc n)) x s =
         Some (Normal undefined_ret,
               s\<lparr>contexts := (contexts s)(x := (contexts s x)
                    \<lparr>disposables_id := Suc (disposables_id (contexts s x))\<rparr>)\<rparr>)"
proof -
  have e: "(contexts s x)\<lparr>dependencies := []\<rparr> = contexts s x"
    "(contexts s x)\<lparr>subscriptions := []\<rparr> = contexts s x"
    using assms by (cases "contexts s x"; simp add: disposed_def)+
  have d: "detach x (dependencies (contexts s x)) s = s"
    using assms by (simp add: disposed_def detach_def)
  have 1: "clear_dependencies x s = s" and 2: "clear_children x s = s"
    by (simp_all add: clear_dependencies_def clear_children_def d e upd_context_def)
  have 3: "clear_cleanups x s = s\<lparr>contexts := (contexts s)(x := (contexts s x)
                    \<lparr>disposables_id := Suc (disposables_id (contexts s x))\<rparr>)\<rparr>"
    using assms by (cases "contexts s x") (simp add: clear_cleanups_def disposed_def upd_context_def)
  show ?thesis
    using assms
    by (simp add: dispose_unfold 1 2 3 disposed_def dispose_each_Nil call_each_Nil and_then_def)
qed


text \<open>
  C7. \<^verbatim>\<open>dispose\<close> returns normally with final state \<open>s'\<close> exactly when \<open>s'\<close> is reached by
  the three steps of the teardown, children before cleanups, each child torn down the same
  way (so every descendant is). On a context whose three lists are empty it changes nothing
  (but the identity of the empty cleanup array). In a state where memberships are recorded,
  a context that is not running is, after its disposal, in no subscriber set and has no
  dependency left, and on normal return no cleanup left.
\<close>

theorem dispose_is_teardown:
  "((\<exists>n r. dispose n x s = Some (Normal r, s')) \<longleftrightarrow> teardown x s s') \<and>
   (disposed x s \<longrightarrow>
      dispose (Suc (Suc n)) x s =
        Some (Normal undefined_ret,
              s\<lparr>contexts := (contexts s)(x := (contexts s x)
                   \<lparr>disposables_id := Suc (disposables_id (contexts s x))\<rparr>)\<rparr>)) \<and>
   (wf s \<and> x < next_context s \<and> x \<notin> set (stack s) \<and> dispose m x s = Some (out, t) \<longrightarrow>
      (\<forall>c. x \<notin> set (sig_subscriptions (signals t c))) \<and>
      dependencies (contexts t x) = [] \<and>
      (out = Normal undefined_ret \<longrightarrow> disposables (contexts t x) = []))"
proof (intro conjI impI)
  show "(\<exists>n r. dispose n x s = Some (Normal r, s')) \<longleftrightarrow> teardown x s s'"
    using dispose_teardown teardown_dispose(1) by blast
next
  assume "disposed x s"
  then show "dispose (Suc (Suc n)) x s =
        Some (Normal undefined_ret,
              s\<lparr>contexts := (contexts s)(x := (contexts s x)
                   \<lparr>disposables_id := Suc (disposables_id (contexts s x))\<rparr>)\<rparr>)"
    by (rule disposed_noop)
next
  assume a: "wf s \<and> x < next_context s \<and> x \<notin> set (stack s) \<and> dispose m x s = Some (out, t)"
  then have "idle x (fn (contexts s x)) t"
    using dispose_idle[of s x m] by (auto dest: postD)
  then show "\<forall>c. x \<notin> set (sig_subscriptions (signals t c))"
    and "dependencies (contexts t x) = []"
    by (simp_all add: idle_def)
next
  assume a: "wf s \<and> x < next_context s \<and> x \<notin> set (stack s) \<and> dispose m x s = Some (out, t)"
    and n: "out = Normal undefined_ret"
  from a obtain k where k: "m = Suc k" by (cases m) auto
  from a n show "disposables (contexts t x) = []"
    unfolding k dispose_unfold
    by (auto simp: and_then_Normal clear_cleanups_def upd_context_def)
qed

theorem dispose_is_teardown_witness:
  "wf nested_scenario \<and> 0 < next_context nested_scenario \<and> 0 \<notin> set (stack nested_scenario) \<and>
   sig_subscriptions (signals nested_scenario 0) = [0] \<and>
   subscriptions (contexts nested_scenario 0) = [1] \<and>
   returned (dispose 9 0 nested_scenario) \<and>
   teardown 0 nested_scenario (state_of (dispose 9 0 nested_scenario)) \<and>
   trace (state_of (dispose 9 0 nested_scenario)) = trace nested_scenario @ [Emitted 7] \<and>
   (\<forall>c. 0 \<notin> set (sig_subscriptions (signals (state_of (dispose 9 0 nested_scenario)) c))) \<and>
   disposed 0 (state_of (dispose 9 0 nested_scenario)) \<and>
   trace (state_of (dispose 2 0 (state_of (dispose 9 0 nested_scenario)))) =
     trace (state_of (dispose 9 0 nested_scenario))"
proof -
  define t where "t = state_of (dispose 9 0 nested_scenario)"
  have w: "wf nested_scenario"
    unfolding nested_scenario_def wf_def
    by (simp add: numeral_eq_Suc eval_Suc engine_defs init_def)
  have a: "0 < next_context nested_scenario" "0 \<notin> set (stack nested_scenario)"
    "sig_subscriptions (signals nested_scenario 0) = [0]"
    "subscriptions (contexts nested_scenario 0) = [1]"
    "returned (dispose 9 0 nested_scenario)"
    "trace (state_of (dispose 9 0 nested_scenario)) = trace nested_scenario @ [Emitted 7]"
    unfolding nested_scenario_def by code_simp+
  have d: "disposed 0 t"
    unfolding t_def nested_scenario_def disposed_def
    by (simp add: numeral_eq_Suc eval_Suc engine_defs init_def)
  from a(5) obtain v where e: "dispose 9 0 nested_scenario = Some (Normal v, t)"
    by (auto simp: t_def returned_def state_of_def split: option.splits outcome.splits)
  have 1: "teardown 0 nested_scenario t"
    using dispose_is_teardown[of 0 nested_scenario t] e by blast
  have 2: "\<forall>c. 0 \<notin> set (sig_subscriptions (signals t c))"
    using dispose_is_teardown[of 0 nested_scenario t 0 9 "Normal v" t] w a(1,2) e by blast
  have 3: "dispose (Suc (Suc 0)) 0 t =
        Some (Normal undefined_ret,
              t\<lparr>contexts := (contexts t)(0 := (contexts t 0)
                   \<lparr>disposables_id := Suc (disposables_id (contexts t 0))\<rparr>)\<rparr>)"
    using dispose_is_teardown[of 0 t t 0] d by blast
  have "trace (state_of (dispose 2 0 t)) = trace t"
    using 3 by (simp add: numeral_2_eq_2 state_of_def)
  with w a d 1 2 show ?thesis unfolding t_def by blast
qed

section \<open>The trace only grows\<close>


lemma trace_read [simp]: "trace (snd (read c s)) = trace s"
  by (cases "getCurrentContext s") (simp_all add: read_None read_Some)



section \<open>The first run\<close>

lemma and_then_simps [simp]:
  "and_then None f = None"
  "and_then (Some (Raised e, s)) f = Some (Raised e, s)"
  "and_then (Some (Normal r, s)) f = f r s"
  by (simp_all add: and_then_def)

lemma try_finally_simps [simp]:
  "try_finally None g = None"
  "try_finally (Some (out, s)) g = Some (out, g s)"
  by (simp_all add: try_finally_def)





lemma calls_append [simp]: "calls (xs @ ys) = calls xs @ calls ys"
  by (induction xs rule: calls.induct) simp_all






lemma signals_write_noted [simp]: "signals (write_noted c a s) = signals s"
  by (simp add: write_noted_def)








section \<open>What the constructors return\<close>

lemma effect_r_Suc: "effect_r (Suc n) f rs s = effect_r_body (reval n) f rs s"
  by simp

lemma computed_r_Suc: "computed_r (Suc n) f s = computed_r_body (reval n) f s"
  by simp

lemma rand_then_Normal:
  "rand_then m f = Some (RNormal r, s') \<longleftrightarrow>
     (\<exists>u s1. m = Some (RNormal u, s1) \<and> f u s1 = Some (RNormal r, s'))"
  by (auto simp: rand_then_def split: option.splits routcome.splits prod.splits)

lemma effect_returns_undefined: "effect n f s = Some (Normal r, s') \<Longrightarrow> r = undefined_ret"
  by (cases n) (auto simp: effect_Suc effect_body_def and_then_Normal)

lemma computed_returns_accessor:
  "computed n q s = Some (Normal r, s') \<Longrightarrow> r = RAccessor (next_signal s)"
  by (cases n)
     (auto simp: computed_Suc computed_body_def and_then_Normal signal_def Let_def)

lemma effect_r_returns_clear:
  "effect_r n g rs t = Some (RNormal r, t') \<Longrightarrow> r = RRClear (next_watcher t)"
  by (cases n)
     (auto simp: effect_r_Suc effect_r_body_def effect_of_body_def new_function_def
                 rand_then_Normal Let_def split: if_splits)

lemma computed_r_returns_pair:
  "computed_r n g t = Some (RNormal r, t') \<Longrightarrow>
   r = RRPair (RRGetter (next_ref t)) (RRClear (next_watcher t))"
  by (cases n)
     (auto simp: computed_r_Suc computed_r_body_def rand_then_Normal ref_def Let_def)

text \<open>
  C4. In \<^verbatim>\<open>signal.js\<close>, \<^verbatim>\<open>effect(fn)\<close> returns \<^verbatim>\<open>undefined\<close> and \<^verbatim>\<open>computed(fn)\<close>
  returns the read accessor of the internal cell, alone. In \<^verbatim>\<open>reactive.js\<close>,
  \<^verbatim>\<open>effect(fn, refs)\<close> returns the \<^verbatim>\<open>clear\<close> procedure of the subscriber it made, and
  \<^verbatim>\<open>computed(fn)\<close> returns the getter of the internal ref together with the \<^verbatim>\<open>clear\<close>
  procedure of the subscriber that keeps it up to date.
\<close>

theorem constructor_results:
  "(effect n f s = Some (Normal r, s') \<longrightarrow> r = undefined_ret) \<and>
   (computed n q s = Some (Normal r, s') \<longrightarrow> r = RAccessor (next_signal s)) \<and>
   (effect_r n g rs t = Some (RNormal r', t') \<longrightarrow> r' = RRClear (next_watcher t)) \<and>
   (computed_r n g t = Some (RNormal r', t') \<longrightarrow>
      r' = RRPair (RRGetter (next_ref t)) (RRClear (next_watcher t)))"
  by (intro conjI impI)
     (erule effect_returns_undefined computed_returns_accessor effect_r_returns_clear
        computed_r_returns_pair)+

theorem constructor_results_witness:
  "returned (effect 9 (\<lambda>d. Return Undefined) init) \<and>
   value_of (effect 9 (\<lambda>d. Return Undefined) init) = undefined_ret \<and>
   returned (computed 9 (Return (Num 1)) init) \<and>
   value_of (computed 9 (Return (Num 1)) init) = RAccessor (next_signal init) \<and>
   rreturned (effect_r 9 (RReturn Undefined) None rinit) \<and>
   rvalue_of (effect_r 9 (RReturn Undefined) None rinit) = RRClear (next_watcher rinit) \<and>
   rreturned (computed_r 9 (RReturn (Num 1)) rinit) \<and>
   rvalue_of (computed_r 9 (RReturn (Num 1)) rinit) =
     RRPair (RRGetter (next_ref rinit)) (RRClear (next_watcher rinit))"
proof -
  have a: "returned (effect 9 (\<lambda>d. Return Undefined) init)"
    "returned (computed 9 (Return (Num 1)) init)"
    "rreturned (effect_r 9 (RReturn Undefined) None rinit)"
    "rreturned (computed_r 9 (RReturn (Num 1)) rinit)"
    by code_simp+
  from a(1) obtain v1 s1 where 1: "effect 9 (\<lambda>d. Return Undefined) init = Some (Normal v1, s1)"
    by (auto simp: returned_def split: option.splits outcome.splits)
  from a(2) obtain v2 s2 where 2: "computed 9 (Return (Num 1)) init = Some (Normal v2, s2)"
    by (auto simp: returned_def split: option.splits outcome.splits)
  from a(3) obtain v3 s3 where 3: "effect_r 9 (RReturn Undefined) None rinit = Some (RNormal v3, s3)"
    by (auto simp: rreturned_def split: option.splits routcome.splits)
  from a(4) obtain v4 s4 where 4: "computed_r 9 (RReturn (Num 1)) rinit = Some (RNormal v4, s4)"
    by (auto simp: rreturned_def split: option.splits routcome.splits)
  from constructor_results[of 9 "\<lambda>d. Return Undefined" init v1 s1] 1
  have "v1 = undefined_ret" by blast
  moreover from constructor_results[where n=9 and q="Return (Num 1)" and s=init and r=v2 and s'=s2] 2
  have "v2 = RAccessor (next_signal init)" by blast
  moreover from constructor_results[where n=9 and g="RReturn Undefined" and rs=None and t=rinit
      and r'=v3 and t'=s3] 3
  have "v3 = RRClear (next_watcher rinit)" by blast
  moreover from constructor_results[where n=9 and g="RReturn (Num 1)" and t=rinit
      and r'=v4 and t'=s4] 4
  have "v4 = RRPair (RRGetter (next_ref rinit)) (RRClear (next_watcher rinit))" by blast
  ultimately show ?thesis
    using a by (simp add: 1 2 3 4 value_of_def rvalue_of_def)
qed

text \<open>
  C4, as stated, fails on \<^verbatim>\<open>signal.js\<close>: what \<^verbatim>\<open>effect\<close> returns is \<^verbatim>\<open>undefined\<close>, no
  procedure, and what \<^verbatim>\<open>computed\<close> returns is one accessor, no pair.
\<close>

theorem signal_constructors_counterexample:
  "value_of (effect 9 (\<lambda>d. Return Undefined) init) = RVal Undefined \<and>
   value_of (computed 9 (Return (Num 1)) init) = RAccessor 0"
  by (simp add: numeral_eq_Suc eval_Suc engine_defs init_def value_of_def cell_of.simps)

section \<open>The stack when a run raises\<close>

text \<open>
  C6. The body of the middle subscriber raises (the exception comes out of its write, which
  re-runs the inner subscriber, whose cleanup throws). Before the run of the middle
  subscriber the stack holds the outer context; after it the stack is empty: the inner
  run popped without having pushed (its \<^verbatim>\<open>dispose()\<close> threw inside the \<^verbatim>\<open>try\<close>), so the
  pop of the middle run removed the outer context. The loss shows in what follows: an
  outer subscriber that catches the exception and then reads \<open>b\<close> is not subscribed to
  \<open>b\<close>, and a later \<^verbatim>\<open>setB(1)\<close> does not run it again; when the middle subscriber's
  function throws by itself, the outer subscriber is subscribed to \<open>b\<close>.
\<close>

theorem execute_pops_unpushed:
  "stack outer_running = [0] \<and>
   raised (effect 12 middle_body outer_running) \<and>
   trace (state_of (effect 12 middle_body outer_running)) = [Called 1, Called 2] \<and>
   stack (state_of (effect 12 middle_body outer_running)) = [] \<and>
   returned (run 18 caught_scenario init) \<and>
   trace (state_of (run 18 caught_scenario init)) = [Called 0, Emitted 0, Called 1, Called 2] \<and>
   sig_subscriptions (signals (state_of (run 18 caught_scenario init)) 1) = [] \<and>
   returned (write_signal 3 1 (Lit (Num 1)) (state_of (run 18 caught_scenario init))) \<and>
   trace (state_of (write_signal 3 1 (Lit (Num 1)) (state_of (run 18 caught_scenario init)))) =
     [Called 0, Emitted 0, Called 1, Called 2] \<and>
   returned (run 18 caught_control init) \<and>
   trace (state_of (run 18 caught_control init)) = [Called 0, Emitted 0, Called 1] \<and>
   sig_subscriptions (signals (state_of (run 18 caught_control init)) 1) = [0]"
  unfolding outer_running_def middle_body_def caught_scenario_def caught_control_def
  by code_simp

section \<open>Lazy subscription in \<^verbatim>\<open>reactive.js\<close>\<close>

lemma rpostD: "rpost m P \<Longrightarrow> m = Some (out, s') \<Longrightarrow> P s'"
  by (simp add: rpost_def)

lemma rpost_None [simp]: "rpost None P"
  by (simp add: rpost_def)

lemma rpost_Some [simp]: "rpost (Some (out, s)) P \<longleftrightarrow> P s"
  by (simp add: rpost_def)

lemma rpost_rand_then:
  "rpost m P \<Longrightarrow> (\<And>r s. P s \<Longrightarrow> rpost (f r s) P) \<Longrightarrow> rpost (rand_then m f) P"
  unfolding rpost_def rand_then_def
  by (auto split: option.splits routcome.splits prod.splits)

lemma reval_unfold:
  "rrun (Suc n) p s = rrun_body (reval n) p s"
  "dispatch (Suc n) [] v s = Some (RNormal rundefined, s)"
  "dispatch (Suc n) (cb # cbs) v s =
     rand_then (reval n (RCallback cb v) s) (\<lambda>x. dispatch n cbs v)"
  "reval (Suc n) (RCallback cb v) s = callback_body (reval n) cb v s"
  "update (Suc n) w s = update_body (reval n) w s"
  "reval (Suc n) (RRunEffect w) s = run_effect_body (reval n) w s"
  "effect_of (Suc n) g rs s = effect_of_body (reval n) g rs s"
  by simp_all

declare reval.simps(2) [simp del]

lemmas rengine_defs = rrun_body_def setter_body_def update_body_def run_effect_body_def
  computed_r_body_def effect_r_body_def effect_of_body_def callback_body_def rand_then_def
  ref_def getter_def track_def startTracking_r_def stopTracking_r_def watch_def clear_def
  new_watcher_def new_function_def lazy_def remit_def rewatch_def upd_ref_def upd_watcher_def
  set_add_def set_delete_def rundefined_def rstate_of_def rinit_def Let_def

lemma watch_callbacks:
  "callbacks (refs (watch w cb target s) r) =
     (if r = target then set_add cb (callbacks (refs s r)) else callbacks (refs s r))"
  by (simp add: watch_def upd_watcher_def upd_ref_def)

lemma fold_watch_callbacks:
  "callbacks (refs (fold (watch w cb) rs s) r) =
     (if r \<in> set rs then set_add cb (callbacks (refs s r)) else callbacks (refs s r))"
proof (induction rs arbitrary: s)
  case Nil
  show ?case by simp
next
  case (Cons a rs)
  show ?case
    by (simp add: Cons.IH watch_callbacks) (auto simp: set_add_def)
qed

lemma fold_watch_frame:
  "rtrace (fold (watch w cb) rs s) = rtrace s \<and> tracklist (fold (watch w cb) rs s) = tracklist s \<and>
   next_watcher (fold (watch w cb) rs s) = next_watcher s \<and>
   next_function (fold (watch w cb) rs s) = next_function s \<and>
   fn_objects (fold (watch w cb) rs s) = fn_objects s \<and>
   (\<forall>y. w_fn (watchers (fold (watch w cb) rs s) y) = w_fn (watchers s y)) \<and>
   next_ref (fold (watch w cb) rs s) = next_ref s \<and>
   (\<forall>r. ref_data (refs (fold (watch w cb) rs s) r) = ref_data (refs s r))"
  by (induction rs arbitrary: s) (simp_all add: watch_def upd_watcher_def upd_ref_def)

lemma fold_watch_deps:
  "w_deps (watchers (fold (watch w cb) rs s) y) =
     (if y = w then w_deps (watchers s y) @ map (\<lambda>r. (r, cb)) rs else w_deps (watchers s y))"
  by (induction rs arbitrary: s) (simp_all add: watch_def upd_watcher_def upd_ref_def)

lemma set_add_distinct: "distinct xs \<Longrightarrow> distinct (set_add x xs)"
  by (simp add: set_add_def)

lemma count_list_distinct: "distinct xs \<Longrightarrow> x \<in> set xs \<Longrightarrow> count_list xs x = 1"
  by (induction xs) auto

lemma fold_clear_callbacks:
  "set (callbacks (refs (fold (\<lambda>(target, cb). upd_ref target (\<lambda>r. r\<lparr>callbacks := set_delete cb (callbacks r)\<rparr>)) ds s) r))
     \<subseteq> set (callbacks (refs s r)) \<and>
   (distinct (callbacks (refs s r)) \<longrightarrow>
    distinct (callbacks (refs (fold (\<lambda>(target, cb). upd_ref target (\<lambda>r. r\<lparr>callbacks := set_delete cb (callbacks r)\<rparr>)) ds s) r)))"
proof (induction ds arbitrary: s)
  case Nil
  show ?case by simp
next
  case (Cons d ds)
  obtain target cb where d: "d = (target, cb)" by (cases d)
  define s1 where "s1 = upd_ref target (\<lambda>r. r\<lparr>callbacks := set_delete cb (callbacks r)\<rparr>) s"
  have "set (callbacks (refs s1 r)) \<subseteq> set (callbacks (refs s r))"
    and "distinct (callbacks (refs s r)) \<longrightarrow> distinct (callbacks (refs s1 r))"
    by (auto simp: s1_def upd_ref_def set_delete_def distinct_removeAll)
  with Cons[of s1] show ?case by (auto simp: d s1_def)
qed

lemma fold_clear_frame:
  "next_watcher (fold (\<lambda>(target, cb). upd_ref target (\<lambda>r. r\<lparr>callbacks := set_delete cb (callbacks r)\<rparr>)) ds s)
     = next_watcher s \<and>
   watchers (fold (\<lambda>(target, cb). upd_ref target (\<lambda>r. r\<lparr>callbacks := set_delete cb (callbacks r)\<rparr>)) ds s)
     = watchers s \<and>
   next_function (fold (\<lambda>(target, cb). upd_ref target (\<lambda>r. r\<lparr>callbacks := set_delete cb (callbacks r)\<rparr>)) ds s)
     = next_function s \<and>
   fn_objects (fold (\<lambda>(target, cb). upd_ref target (\<lambda>r. r\<lparr>callbacks := set_delete cb (callbacks r)\<rparr>)) ds s)
     = fn_objects s"
  by (induction ds arbitrary: s) (auto simp: upd_ref_def)

text \<open>Callback sets stay sets.\<close>

lemma rwf_clear: "rwf s \<Longrightarrow> rwf (clear y s)"
  unfolding rwf_def
proof
  fix r assume "\<forall>r. distinct (callbacks (refs s r))"
  then show "distinct (callbacks (refs (clear y s) r))"
    using fold_clear_callbacks[of "w_deps (watchers s y)" s r]
    by (simp add: clear_def upd_watcher_def)
qed

lemma rwf_fold_watch: "rwf s \<Longrightarrow> rwf (fold (watch y cb) rs s)"
  by (auto simp: rwf_def fold_watch_callbacks set_add_def)

lemma rwf_rewatch: "rwf s \<Longrightarrow> rwf (rewatch y cb s)"
  by (cases "stopTracking_r s")
     (auto simp: rewatch_def stopTracking_r_def rwf_def fold_watch_callbacks set_add_def
           split: if_splits)

lemma rwf_preserved: "rwf s \<Longrightarrow> rpost (reval n t s) rwf"
proof (induction n arbitrary: t s)
  case 0
  then show ?case by simp
next
  case (Suc n)
  note IH = Suc.IH and i = Suc.prems
  have gt: "rwf s1" if "rwf s" "getter r s = (v, s1)" for s r v s1
    using that by (auto simp: rwf_def getter_def track_def split: if_splits)
  have rf: "rwf s1" if "rwf s" "ref v s = (g, s1)" for s v g s1
    using that by (auto simp: rwf_def ref_def Let_def)
  have nw: "rwf (new_watcher g r s)" if "rwf s" for s g r
    using that by (simp add: rwf_def new_watcher_def)
  have nf: "rwf (new_function g s)" if "rwf s" for s g
    using that by (simp add: rwf_def new_function_def)
  have rm: "rwf (remit e s)" if "rwf s" for s e
    using that by (simp add: rwf_def remit_def)
  have st: "rwf (startTracking_r s)" if "rwf s" for s
    using that by (simp add: rwf_def startTracking_r_def)
  have ud: "rwf (upd_ref r (\<lambda>c. c\<lparr>ref_data := g c\<rparr>) s)" if "rwf s" for s r g
    using that by (simp add: rwf_def upd_ref_def)
  show ?case
  proof (cases t)
    case (RRun p)
    have "rpost (rrun_body (reval n) p s) rwf"
      using i
      by (cases p)
         (auto simp: rrun_body_def split: prod.splits
               intro!: rpost_rand_then IH rwf_clear rm nf elim: gt rf)
    with RRun show ?thesis by (simp add: reval_unfold)
  next
    case (RSetCall r u)
    with i show ?thesis
      by (auto simp: setter_Suc setter_body_def Let_def intro!: IH ud)
  next
    case (RDispatch cbs v)
    with i show ?thesis
      by (cases cbs) (auto simp: reval_unfold intro!: rpost_rand_then IH)
  next
    case (RCallback cb v)
    with i show ?thesis
      by (cases cb) (auto simp: reval_unfold callback_body_def intro!: IH rm)
  next
    case (RComputed f)
    with i show ?thesis
      by (auto simp: computed_r_Suc computed_r_body_def split: prod.splits
               intro!: rpost_rand_then IH nw elim: rf)
  next
    case (REffect f rs)
    with i show ?thesis
      by (auto simp: effect_r_Suc effect_r_body_def effect_of_body_def Let_def lazy_def
               intro!: rpost_rand_then IH nw nf rwf_fold_watch)
  next
    case (REffectOf g rs)
    with i show ?thesis
      by (auto simp: reval_unfold effect_of_body_def Let_def lazy_def
               intro!: rpost_rand_then IH nw rwf_fold_watch)
  next
    case (RUpdate y)
    with i show ?thesis
      by (auto simp: reval_unfold update_body_def Let_def
               intro!: rpost_rand_then IH rm st rwf_clear ud rwf_rewatch)
  next
    case (RRunEffect y)
    with i show ?thesis
      by (auto simp: reval_unfold run_effect_body_def Let_def
               intro!: rpost_rand_then IH rm st rwf_clear rwf_rewatch)
  qed
qed

text \<open>A lazy subscriber stays one.\<close>

lemma clear_callbacks:
  "set (callbacks (refs (clear y s) r)) \<subseteq> set (callbacks (refs s r))"
  using fold_clear_callbacks[of "w_deps (watchers s y)" s r]
  by (simp add: clear_def upd_watcher_def)

lemma clear_frame:
  "next_watcher (clear y s) = next_watcher s \<and> next_function (clear y s) = next_function s \<and>
   fn_objects (clear y s) = fn_objects s \<and>
   w_deps (watchers (clear y s) z) = (if z = y then [] else w_deps (watchers s z))"
  using fold_clear_frame[of "w_deps (watchers s y)" s]
  by (simp add: clear_def upd_watcher_def)

lemma lo_clear: "lazy_only w g f A s \<Longrightarrow> lazy_only w g f A (clear y s)"
  unfolding lazy_only_def using clear_callbacks[of y s] clear_frame[of y s w]
  by (auto split: if_splits)

lemma lo_getter: "lazy_only w g f A s \<Longrightarrow> getter r s = (v, s1) \<Longrightarrow> lazy_only w g f A s1"
  by (auto simp: lazy_only_def getter_def track_def split: if_splits)

lemma lo_ref: "lazy_only w g f A s \<Longrightarrow> ref v s = (p, s1) \<Longrightarrow> lazy_only w g f A s1"
  by (auto simp: lazy_only_def ref_def Let_def split: if_splits)

lemma lo_new_watcher: "lazy_only w g f A s \<Longrightarrow> lazy_only w g f A (new_watcher h r s)"
  by (auto simp: lazy_only_def new_watcher_def)

lemma lo_new_function: "lazy_only w g f A s \<Longrightarrow> lazy_only w g f A (new_function h s)"
  by (auto simp: lazy_only_def new_function_def)

lemma lo_remit: "lazy_only w g f A s \<Longrightarrow> lazy_only w g f A (remit e s)"
  by (auto simp: lazy_only_def remit_def)

lemma lo_upd_data:
  "lazy_only w g f A s \<Longrightarrow> lazy_only w g f A (upd_ref r (\<lambda>c. c\<lparr>ref_data := h c\<rparr>) s)"
  by (auto simp: lazy_only_def upd_ref_def)

lemma lo_startTracking: "lazy_only w g f A s \<Longrightarrow> lazy_only w g f A (startTracking_r s)"
  by (auto simp: lazy_only_def startTracking_r_def)

lemma lo_fold_watch:
  "lazy_only w g f A s \<Longrightarrow> y \<noteq> w \<Longrightarrow> cb \<noteq> EffectFn w \<Longrightarrow> cb \<noteq> UpdateFn w \<Longrightarrow>
   lazy_only w g f A (fold (watch y cb) rs s)"
  using fold_watch_frame[of y cb rs s]
  by (auto simp: lazy_only_def fold_watch_callbacks fold_watch_deps set_add_def split: if_splits)

lemma lo_rewatch:
  "lazy_only w g f A s \<Longrightarrow> y \<noteq> w \<Longrightarrow> cb \<noteq> EffectFn w \<Longrightarrow> cb \<noteq> UpdateFn w \<Longrightarrow>
   lazy_only w g f A (rewatch y cb s)"
proof -
  assume a: "lazy_only w g f A s" "y \<noteq> w" "cb \<noteq> EffectFn w" "cb \<noteq> UpdateFn w"
  obtain tracked s1 where st: "stopTracking_r s = (tracked, s1)" by (cases "stopTracking_r s")
  then have "lazy_only w g f A s1"
    using a(1) by (auto simp: lazy_only_def stopTracking_r_def split: if_splits)
  then show ?thesis
    using a(2-4) by (simp add: rewatch_def st lo_fold_watch)
qed

lemma lo_fresh: "lazy_only w g f A s \<Longrightarrow> next_watcher s \<noteq> w"
  by (auto simp: lazy_only_def)

lemma lo_callbacks:
  "lazy_only w g f A s \<Longrightarrow>
   EffectFn w \<notin> set (callbacks (refs s r)) \<and> UpdateFn w \<notin> set (callbacks (refs s r))"
  by (simp add: lazy_only_def)

lemma lazy_only_preserved:
  "lazy_only w g f A s \<Longrightarrow> rspares w t \<Longrightarrow> rpost (reval n t s) (lazy_only w g f A)"
proof (induction n arbitrary: t s)
  case 0
  then show ?case by simp
next
  case (Suc n)
  note i = Suc.prems(1)
  have IH: "rpost (reval n c s) (lazy_only w g f A)" if "lazy_only w g f A s" "rspares w c" for c s
    using that by (rule Suc.IH)
  have run: "rpost (rrun n p s) (lazy_only w g f A)" if "lazy_only w g f A s" for p s
    using that by (rule IH) (simp add: rspares_def)
  show ?case
  proof (cases t)
    case (RRun p)
    have "rpost (rrun_body (reval n) p s) (lazy_only w g f A)"
      using i
      by (cases p)
         (auto simp: rrun_body_def rspares_def split: prod.splits
               intro!: rpost_rand_then IH lo_clear lo_remit lo_new_function elim: lo_getter lo_ref)
    with RRun show ?thesis by (simp add: reval_unfold)
  next
    case (RSetCall r u)
    have "lazy_only w g f A (upd_ref r (\<lambda>c. c\<lparr>ref_data := u (ref_data c)\<rparr>) s)"
      using i by (rule lo_upd_data)
    then have "rpost (setter_body (reval n) r u s) (lazy_only w g f A)"
      unfolding setter_body_def Let_def
      by (rule IH) (use i in \<open>auto simp: rspares_def upd_ref_def lazy_only_def\<close>)
    with RSetCall show ?thesis by (simp add: setter_Suc)
  next
    case (RDispatch cbs v)
    with i Suc.prems(2) show ?thesis
      by (cases cbs) (auto simp: reval_unfold rspares_def intro!: rpost_rand_then IH)
  next
    case (RCallback cb v)
    with i Suc.prems(2) show ?thesis
      by (cases cb) (auto simp: reval_unfold callback_body_def rspares_def intro!: IH lo_remit)
  next
    case (RComputed h)
    have "rpost (computed_r_body (reval n) h s) (lazy_only w g f A)"
      using i
      by (auto simp: computed_r_body_def rspares_def ref_def Let_def split: prod.splits
               intro!: rpost_rand_then IH lo_new_watcher
               dest: lo_fresh lo_ref[where v=Undefined, OF _ surjective_pairing])
    with RComputed show ?thesis by (simp add: computed_r_Suc)
  next
    case (REffect h rs)
    have "rpost (effect_of_body (reval n) (next_function s) rs (new_function h s)) (lazy_only w g f A)"
      using lo_new_function[OF i, of h]
      by (auto simp: effect_of_body_def Let_def lazy_def rspares_def
               intro!: rpost_rand_then IH lo_new_watcher lo_fold_watch dest: lo_fresh)
    with REffect show ?thesis by (simp add: effect_r_Suc effect_r_body_def)
  next
    case (REffectOf h rs)
    have "rpost (effect_of_body (reval n) h rs s) (lazy_only w g f A)"
      using i
      by (auto simp: effect_of_body_def Let_def lazy_def rspares_def
               intro!: rpost_rand_then IH lo_new_watcher lo_fold_watch dest: lo_fresh)
    with REffectOf show ?thesis by (simp add: reval_unfold)
  next
    case (RUpdate y)
    with Suc.prems(2) have yw: "y \<noteq> w" by (simp add: rspares_def)
    have disp: "rpost (dispatch n (callbacks (refs s3 r)) v s3) (lazy_only w g f A)"
      if "lazy_only w g f A s3" for s3 r v
      using that by (rule IH) (use that in \<open>simp add: rspares_def lazy_only_def\<close>)
    have "rpost (update_body (reval n) y s) (lazy_only w g f A)"
      using i yw unfolding update_body_def Let_def
      by (intro rpost_rand_then run disp lo_remit lo_startTracking lo_clear lo_upd_data)
         (auto intro!: lo_rewatch)
    with RUpdate show ?thesis by (simp add: reval_unfold)
  next
    case (RRunEffect y)
    with Suc.prems(2) have yw: "y \<noteq> w" by (simp add: rspares_def)
    have "rpost (run_effect_body (reval n) y s) (lazy_only w g f A)"
      using i yw unfolding run_effect_body_def Let_def
      by (auto intro!: rpost_rand_then run lo_remit lo_startTracking lo_clear lo_rewatch)
    with RRunEffect show ?thesis by (simp add: reval_unfold)
  qed
qed

lemma dispatch_calls_in_order:
  "dispatch n cbs v s = Some (RNormal r, s') \<Longrightarrow> calls_in_order cbs v s s'"
proof (induction n arbitrary: cbs s)
  case 0
  then show ?case by simp
next
  case (Suc n)
  show ?case
  proof (cases cbs)
    case Nil
    with Suc.prems show ?thesis by (simp add: reval_unfold cio_Nil)
  next
    case (Cons cb rest)
    with Suc.prems obtain u s1 where
      "reval n (RCallback cb v) s = Some (RNormal u, s1)" and "dispatch n rest v s1 = Some (RNormal r, s')"
      by (auto simp only: reval_unfold rand_then_Normal)
    with Suc.IH Cons show ?thesis by (auto intro: cio_Cons)
  qed
qed

lemma lazy_callbacks:
  "callbacks (refs (lazy w g rs s) r) =
     (if r \<in> set rs then set_add (UserFn g) (callbacks (refs s r)) else callbacks (refs s r))"
  by (simp add: lazy_def fold_watch_callbacks)

lemma effect_of_lazy:
  "rs \<noteq> [] \<Longrightarrow>
   effect_of (Suc n) g (Some rs) s =
     Some (RNormal (RRClear (next_watcher s)),
           lazy (next_watcher s) g rs (new_watcher (fn_objects s g) 0 s))"
  by (simp add: reval_unfold effect_of_body_def Let_def)

lemma effect_r_lazy:
  "rs \<noteq> [] \<Longrightarrow>
   effect_r (Suc n) f (Some rs) s =
     Some (RNormal (RRClear (next_watcher s)),
           lazy (next_watcher s) (next_function s) rs (new_watcher f 0 (new_function f s)))"
  by (simp add: effect_r_Suc effect_r_body_def effect_of_body_def Let_def new_function_def)

lemma lazy_lazy_only:
  assumes "g < next_function s"
    and "\<forall>r. EffectFn (next_watcher s) \<notin> set (callbacks (refs s r)) \<and>
             UpdateFn (next_watcher s) \<notin> set (callbacks (refs s r))"
  shows "lazy_only (next_watcher s) g (fn_objects s g) (set rs)
           (lazy (next_watcher s) g rs (new_watcher (fn_objects s g) 0 s))"
proof -
  define s1 where "s1 = new_watcher (fn_objects s g) 0 s"
  have 1: "next_watcher s1 = Suc (next_watcher s)" "refs s1 = refs s"
    "next_function s1 = next_function s" "fn_objects s1 = fn_objects s"
    "w_deps (watchers s1 (next_watcher s)) = []"
    by (simp_all add: s1_def new_watcher_def)
  show ?thesis
    unfolding s1_def[symmetric] lazy_only_def lazy_def
    using assms fold_watch_frame[of "next_watcher s" "UserFn g" rs s1]
    by (auto simp: 1 fold_watch_callbacks fold_watch_deps set_add_def split: if_splits)
qed

text \<open>
  C9. Let \<^verbatim>\<open>effect(fn, refs)\<close> of \<^verbatim>\<open>reactive.js\<close> be called with a non-empty list, \<^verbatim>\<open>fn\<close>
  being a function object \<open>g\<close> that exists or a function expression \<open>f\<close>. It returns at
  once, with the \<^verbatim>\<open>clear\<close> procedure of a new subscriber; nothing was run (the trace and the
  tracking stack are as before). The function object itself has joined the callback sets of
  exactly the listed refs, and the subscriber holds one unsubscribe closure per listed ref.
  Callback sets stay sets, whatever is called. A setter call that returns has called the
  callbacks the ref had at that moment, in order, each once; calling the function object is
  running its body in the state as it is, with no tracking set pushed for it. The subscriber
  is and stays a lazy one under every call that is not a run of its own closures (no call a
  program can make is): it never holds an unsubscribe closure for anything but \<open>g\<close> at a
  listed ref, and no callback set ever holds one of its closures, so no read is ever made a
  dependency of the subscriber.
\<close>

theorem lazy_subscription:
  assumes "rs \<noteq> []"
  shows
    "effect_of (Suc n) g (Some rs) s =
       Some (RNormal (RRClear (next_watcher s)),
             lazy (next_watcher s) g rs (new_watcher (fn_objects s g) 0 s)) \<and>
     effect_r (Suc n) f (Some rs) s =
       Some (RNormal (RRClear (next_watcher s)),
             lazy (next_watcher s) (next_function s) rs (new_watcher f 0 (new_function f s))) \<and>
     rtrace (lazy (next_watcher s) g rs (new_watcher (fn_objects s g) 0 s)) = rtrace s \<and>
     tracklist (lazy (next_watcher s) g rs (new_watcher (fn_objects s g) 0 s)) = tracklist s \<and>
     (\<forall>r. callbacks (refs (lazy (next_watcher s) g rs (new_watcher (fn_objects s g) 0 s)) r) =
            (if r \<in> set rs then set_add (UserFn g) (callbacks (refs s r))
             else callbacks (refs s r))) \<and>
     w_deps (watchers (lazy (next_watcher s) g rs (new_watcher (fn_objects s g) 0 s)) (next_watcher s)) =
       map (\<lambda>r. (r, UserFn g)) rs \<and>
     (\<forall>m c t out t'. rwf t \<and> reval m c t = Some (out, t') \<longrightarrow> rwf t') \<and>
     (\<forall>t r. rwf t \<and> UserFn g \<in> set (callbacks (refs t r)) \<longrightarrow>
        count_list (callbacks (refs t r)) (UserFn g) = 1) \<and>
     (\<forall>m r u t out t'. setter m r u t = Some (RNormal out, t') \<longrightarrow>
        calls_in_order (callbacks (refs t r)) (u (ref_data (refs t r)))
          (upd_ref r (\<lambda>c. c\<lparr>ref_data := u (ref_data c)\<rparr>) t) t') \<and>
     (\<forall>m v t. reval (Suc m) (RCallback (UserFn g) v) t =
        rrun m (fn_objects t g) (remit (RCalled (UserFn g)) t)) \<and>
     (g < next_function s \<and>
      (\<forall>r. EffectFn (next_watcher s) \<notin> set (callbacks (refs s r)) \<and>
           UpdateFn (next_watcher s) \<notin> set (callbacks (refs s r))) \<longrightarrow>
        lazy_only (next_watcher s) g (fn_objects s g) (set rs)
          (lazy (next_watcher s) g rs (new_watcher (fn_objects s g) 0 s))) \<and>
     (\<forall>m c t out t' w h A. lazy_only w g h A t \<and> rspares w c \<and> reval m c t = Some (out, t')
        \<longrightarrow> lazy_only w g h A t') \<and>
     (\<forall>p. rspares w (RRun p)) \<and> (\<forall>r u. rspares w (RSetCall r u))"
proof (intro conjI allI impI)
  show "effect_of (Suc n) g (Some rs) s =
       Some (RNormal (RRClear (next_watcher s)),
             lazy (next_watcher s) g rs (new_watcher (fn_objects s g) 0 s))"
    using assms by (rule effect_of_lazy)
next
  show "effect_r (Suc n) f (Some rs) s =
       Some (RNormal (RRClear (next_watcher s)),
             lazy (next_watcher s) (next_function s) rs (new_watcher f 0 (new_function f s)))"
    using assms by (rule effect_r_lazy)
next
  show "rtrace (lazy (next_watcher s) g rs (new_watcher (fn_objects s g) 0 s)) = rtrace s"
    and "tracklist (lazy (next_watcher s) g rs (new_watcher (fn_objects s g) 0 s)) = tracklist s"
    using fold_watch_frame[of "next_watcher s" "UserFn g" rs "new_watcher (fn_objects s g) 0 s"]
    by (simp_all add: lazy_def new_watcher_def)
next
  fix r
  show "callbacks (refs (lazy (next_watcher s) g rs (new_watcher (fn_objects s g) 0 s)) r) =
            (if r \<in> set rs then set_add (UserFn g) (callbacks (refs s r))
             else callbacks (refs s r))"
    by (simp add: lazy_callbacks new_watcher_def)
next
  show "w_deps (watchers (lazy (next_watcher s) g rs (new_watcher (fn_objects s g) 0 s)) (next_watcher s)) =
       map (\<lambda>r. (r, UserFn g)) rs"
    by (simp add: lazy_def fold_watch_deps new_watcher_def)
next
  fix m c t out t'
  assume "rwf t \<and> reval m c t = Some (out, t')"
  then show "rwf t'"
    using rwf_preserved[of t m c] by (auto dest: rpostD)
next
  fix t r
  assume "rwf t \<and> UserFn g \<in> set (callbacks (refs t r))"
  then show "count_list (callbacks (refs t r)) (UserFn g) = 1"
    using count_list_distinct[of "callbacks (refs t r)" "UserFn g"] by (simp add: rwf_def)
next
  fix m r u t out t'
  assume a: "setter m r u t = Some (RNormal out, t')"
  then obtain k where k: "m = Suc k" by (cases m) auto
  from a show "calls_in_order (callbacks (refs t r)) (u (ref_data (refs t r)))
          (upd_ref r (\<lambda>c. c\<lparr>ref_data := u (ref_data c)\<rparr>) t) t'"
    unfolding k setter_Suc setter_body_def Let_def
    by (auto simp: upd_ref_def dest: dispatch_calls_in_order)
next
  fix m v t
  show "reval (Suc m) (RCallback (UserFn g) v) t =
          rrun m (fn_objects t g) (remit (RCalled (UserFn g)) t)"
    by (simp add: reval_unfold callback_body_def remit_def)
next
  assume "g < next_function s \<and>
      (\<forall>r. EffectFn (next_watcher s) \<notin> set (callbacks (refs s r)) \<and>
           UpdateFn (next_watcher s) \<notin> set (callbacks (refs s r)))"
  then show "lazy_only (next_watcher s) g (fn_objects s g) (set rs)
          (lazy (next_watcher s) g rs (new_watcher (fn_objects s g) 0 s))"
    by (intro lazy_lazy_only) simp_all
next
  fix m c t out t' w h A
  assume "lazy_only w g h A t \<and> rspares w c \<and> reval m c t = Some (out, t')"
  then show "lazy_only w g h A t'"
    using lazy_only_preserved[of w g h A t c m] by (auto dest: rpostD)
next
  fix p show "rspares w (RRun p)" by (simp add: rspares_def)
next
  fix r u show "rspares w (RSetCall r u)" by (simp add: rspares_def)
qed


theorem lazy_subscription_witness:
  "[0] \<noteq> ([] :: cell list) \<and>
   rreturned (effect_of 9 0 (Some [0]) lazy_scenario) \<and>
   rtrace (rstate_of (effect_of 9 0 (Some [0]) lazy_scenario)) = [] \<and>
   callbacks (refs (rstate_of (effect_of 9 0 (Some [0]) lazy_scenario)) 0) = [UserFn 0] \<and>
   callbacks (refs (rstate_of (effect_of 9 0 (Some [0]) lazy_scenario)) 1) = [] \<and>
   rtrace (rstate_of (setter 9 0 (\<lambda>v. Num 5)
            (rstate_of (effect_of 9 0 (Some [0]) lazy_scenario)))) =
     [RCalled (UserFn 0), REmitted 1] \<and>
   rtrace (rstate_of (setter 9 1 (\<lambda>v. Num 7)
            (rstate_of (setter 9 0 (\<lambda>v. Num 5)
               (rstate_of (effect_of 9 0 (Some [0]) lazy_scenario)))))) =
     [RCalled (UserFn 0), REmitted 1] \<and>
   w_deps (watchers (rstate_of (setter 9 0 (\<lambda>v. Num 5)
            (rstate_of (effect_of 9 0 (Some [0]) lazy_scenario)))) 0) = [(0, UserFn 0)] \<and>
   lazy_only 0 0 (REmit 1 (RGet 1 (\<lambda>v. RReturn Undefined))) {0}
     (rstate_of (setter 9 0 (\<lambda>v. Num 5) (rstate_of (effect_of 9 0 (Some [0]) lazy_scenario)))) \<and>
   callbacks (refs (rstate_of (effect_of 9 0 (Some [0])
            (rstate_of (effect_of 9 0 (Some [0]) lazy_scenario)))) 0) = [UserFn 0] \<and>
   rtrace (rstate_of (setter 9 0 (\<lambda>v. Num 5) (rstate_of (effect_of 9 0 (Some [0])
            (rstate_of (effect_of 9 0 (Some [0]) lazy_scenario)))))) =
     [RCalled (UserFn 0), REmitted 1] \<and>
   callbacks (refs (clear 0 (rstate_of (effect_of 9 0 (Some [0])
            (rstate_of (effect_of 9 0 (Some [0]) lazy_scenario))))) 0) = []"
proof -
  define L where "L = rstate_of (effect_of 9 0 (Some [0]) lazy_scenario)"
  define f where "f = REmit 1 (RGet 1 (\<lambda>v. RReturn Undefined))"
  have ne: "[0] \<noteq> ([] :: cell list)" by simp
  have sc: "next_watcher lazy_scenario = 0" "next_function lazy_scenario = 1"
    "fn_objects lazy_scenario 0 = f"
    "\<forall>r. EffectFn (next_watcher lazy_scenario) \<notin> set (callbacks (refs lazy_scenario r)) \<and>
         UpdateFn (next_watcher lazy_scenario) \<notin> set (callbacks (refs lazy_scenario r))"
    unfolding lazy_scenario_def f_def
    by (simp_all add: numeral_eq_Suc reval_unfold rengine_defs)
  have ev: "rreturned (effect_of 9 0 (Some [0]) lazy_scenario)"
    "rtrace (rstate_of (effect_of 9 0 (Some [0]) lazy_scenario)) = []"
    "callbacks (refs (rstate_of (effect_of 9 0 (Some [0]) lazy_scenario)) 0) = [UserFn 0]"
    "callbacks (refs (rstate_of (effect_of 9 0 (Some [0]) lazy_scenario)) 1) = []"
    "rtrace (rstate_of (setter 9 0 (\<lambda>v. Num 5)
            (rstate_of (effect_of 9 0 (Some [0]) lazy_scenario)))) =
     [RCalled (UserFn 0), REmitted 1]"
    "rtrace (rstate_of (setter 9 1 (\<lambda>v. Num 7)
            (rstate_of (setter 9 0 (\<lambda>v. Num 5)
               (rstate_of (effect_of 9 0 (Some [0]) lazy_scenario)))))) =
     [RCalled (UserFn 0), REmitted 1]"
    "w_deps (watchers (rstate_of (setter 9 0 (\<lambda>v. Num 5)
            (rstate_of (effect_of 9 0 (Some [0]) lazy_scenario)))) 0) = [(0, UserFn 0)]"
    "callbacks (refs (rstate_of (effect_of 9 0 (Some [0])
            (rstate_of (effect_of 9 0 (Some [0]) lazy_scenario)))) 0) = [UserFn 0]"
    "rtrace (rstate_of (setter 9 0 (\<lambda>v. Num 5) (rstate_of (effect_of 9 0 (Some [0])
            (rstate_of (effect_of 9 0 (Some [0]) lazy_scenario)))))) =
     [RCalled (UserFn 0), REmitted 1]"
    "callbacks (refs (clear 0 (rstate_of (effect_of 9 0 (Some [0])
            (rstate_of (effect_of 9 0 (Some [0]) lazy_scenario))))) 0) = []"
    "rreturned (setter 9 0 (\<lambda>v. Num 5) (rstate_of (effect_of 9 0 (Some [0]) lazy_scenario)))"
    unfolding lazy_scenario_def rreturned_def
    by (simp_all add: numeral_eq_Suc reval_unfold setter_Suc rengine_defs)
  note T = lazy_subscription[OF ne, of 8 0 lazy_scenario f 0]
  have Leq: "L = lazy (next_watcher lazy_scenario) 0 [0]
                   (new_watcher (fn_objects lazy_scenario 0) 0 lazy_scenario)"
    using T by (simp add: L_def numeral_eq_Suc rstate_of_def)
  have w0: "lazy_only 0 0 f {0} L"
    using T sc unfolding Leq by simp
  from ev(11) obtain out where
    st: "setter 9 0 (\<lambda>v. Num 5) L = Some (out, rstate_of (setter 9 0 (\<lambda>v. Num 5) L))"
    by (auto simp: L_def rreturned_def rstate_of_def split: option.splits routcome.splits)
  have sp: "rspares 0 (RSetCall 0 (\<lambda>v. Num 5))" using T by blast
  have "lazy_only 0 0 f {0} (rstate_of (setter 9 0 (\<lambda>v. Num 5) L))"
    using T w0 sp st by blast
  with ev show ?thesis unfolding L_def f_def by simp
qed

text \<open>
  C9, as stated, fails where it says that the function runs untracked and that what it reads
  is never discovered as a dependency: \<^verbatim>\<open>dispatch\<close> calls the function inside whatever
  tracking run is going on. Here the listed ref is a derived one; its \<^verbatim>\<open>update\<close> dispatches
  before it stops tracking, so the ref \<open>b\<close> that the function read becomes a dependency of
  the derived ref. The first \<^verbatim>\<open>setB\<close> calls nothing; after \<^verbatim>\<open>setA\<close> has run the function
  once, the second \<^verbatim>\<open>setB\<close>, a change of a ref that is not listed, runs it again.
\<close>

theorem lazy_reads_tracked_counterexample:
  "rtrace (rstate_of (rrun 20 derived_scenario rinit)) =
     [RCalled (UpdateFn 0), REmitted 100, REmitted 200, RCalled (UpdateFn 0),
      RCalled (UserFn 0), REmitted 1, REmitted 300, RCalled (UpdateFn 0),
      RCalled (UserFn 0), REmitted 1] \<and>
   callbacks (refs (rstate_of (rrun 20 derived_scenario rinit)) 1) = [UpdateFn 0]"
  unfolding derived_scenario_def
  by (simp add: numeral_eq_Suc reval_unfold setter_Suc computed_r_Suc effect_r_Suc rengine_defs)

section \<open>The argument of a subscriber's function\<close>

lemma agree_None [simp]: "agree None None"
  by (simp add: agree_def)

lemma agree_Some [simp]: "agree (Some (out, s)) (Some (out', t)) \<longleftrightarrow> out = out' \<and> same_but_fn s t"
  by (simp add: agree_def)





lemma sbf_refl [simp]: "same_but_fn s s"
  by (simp add: same_but_fn_def)



















lemma same_call_refl [simp]: "same_call s c c"
  by (simp add: same_call_def)





end
